theory Spec2Isabelle
  imports Complex_Main "HOL-Library.AList"
begin

section \<open>Common conventions\<close>

text \<open>
  Python dictionaries keep their keys in insertion order; they are modelled as
  association lists with distinct keys.  \<open>d[k] = v\<close> is \<open>AList.update k v d\<close>
  (an existing key keeps its position, a new key is appended), \<open>del d[k]\<close> is
  \<open>AList.delete k d\<close>, \<open>k in d\<close> is \<open>map_of d k \<noteq> None\<close>, and
  \<open>d.values()\<close> is \<open>map snd d\<close>.

  A naive \<open>datetime\<close> is modelled by the number of microseconds elapsed since
  0001-01-01T00:00:00 (the resolution of Python's \<open>datetime\<close>), a \<open>timedelta\<close>
  by a number of microseconds.  Python floats are modelled by real numbers, so
  rounding is not represented.  Every reading of the wall clock
  (\<open>datetime.now()\<close>, \<open>time.time()\<close>) is an explicit argument \<open>now\<close> of the
  operation that reads it.
\<close>

type_synonym datetime = int
type_synonym timedelta = int

definition total_seconds :: "timedelta \<Rightarrow> real" where
  "total_seconds delta = real_of_int delta / 1000000"

definition hour :: "datetime \<Rightarrow> int" where
  "hour t = (t div 3600000000) mod 24"

text \<open>\<open>weekday\<close> is 0 for Monday; 0001-01-01 is a Monday.\<close>

definition weekday :: "datetime \<Rightarrow> nat" where
  "weekday t = nat ((t div 86400000000) mod 7)"

definition strftime_A :: "datetime \<Rightarrow> string" where
  "strftime_A t =
     [''Monday'', ''Tuesday'', ''Wednesday'', ''Thursday'', ''Friday'', ''Saturday'',
      ''Sunday''] ! weekday t"

datatype error = ValueError | IndexError | KeyError | OperationalError

section \<open>dwell\_time\_tracker.py\<close>

subsection \<open>DwellSession\<close>

record DwellSession =
  track_id :: int
  entry_time :: datetime
  exit_time :: "datetime option"
  dwell_minutes :: "real option"
  day_of_week :: "string option"
  entry_hour :: "int option"

definition new_session :: "int \<Rightarrow> datetime \<Rightarrow> DwellSession" where
  "new_session tid t =
     \<lparr>track_id = tid, entry_time = t, exit_time = None, dwell_minutes = None,
      day_of_week = None, entry_hour = None\<rparr>"

text \<open>\<open>if self.exit_time:\<close> holds for every \<open>datetime\<close> object and fails for \<open>None\<close>.\<close>

definition calculate_dwell_time :: "DwellSession \<Rightarrow> DwellSession" where
  "calculate_dwell_time s =
     (case exit_time s of
        None \<Rightarrow> s
      | Some e \<Rightarrow>
          s\<lparr>dwell_minutes := Some (total_seconds (e - entry_time s) / 60),
            day_of_week := Some (strftime_A (entry_time s)),
            entry_hour := Some (hour (entry_time s))\<rparr>)"

definition is_active :: "DwellSession \<Rightarrow> bool" where
  "is_active s = (exit_time s = None)"

definition get_current_dwell_minutes :: "datetime \<Rightarrow> DwellSession \<Rightarrow> real" where
  "get_current_dwell_minutes now s =
     (let end_time = (case exit_time s of Some e \<Rightarrow> e | None \<Rightarrow> now)
      in total_seconds (end_time - entry_time s) / 60)"

subsection \<open>The sessions table\<close>

text \<open>
  One row of the table \<open>sessions\<close>.  The autoincrement column \<open>id\<close> is never
  read or written by the program; it is represented by the position of the row in
  the list, which is the order in which a scan returns the rows.  The TEXT columns
  holding \<open>isoformat()\<close> strings are represented by the datetime they denote.
\<close>

record session_row =
  row_track_id :: int
  row_entry_time :: datetime
  row_exit_time :: "datetime option"
  row_dwell_minutes :: "real option"
  row_day_of_week :: "string option"
  row_entry_hour :: "int option"
  row_is_active :: int

datatype log_record =
    Info_initialized
  | Info_loaded nat
  | Info_entry int datetime
  | Warning_unknown_exit int
  | Info_exit int "real option"

subsection \<open>DwellTimeTracker\<close>

record DwellTimeTracker =
  warning_threshold :: int
  alert_threshold :: int
  active_sessions :: "(int \<times> DwellSession) list"
  db :: "session_row list"
  logged :: "log_record list"

text \<open>The loop of \<open>_load_active_sessions\<close> over the rows selected by \<open>is_active = 1\<close>.\<close>

fun load_rows :: "session_row list \<Rightarrow> (int \<times> DwellSession) list \<Rightarrow> (int \<times> DwellSession) list" where
  "load_rows [] act = act"
| "load_rows (r # rs) act =
     load_rows rs
       (AList.update (row_track_id r)
          \<lparr>track_id = row_track_id r, entry_time = row_entry_time r,
           exit_time = row_exit_time r, dwell_minutes = row_dwell_minutes r,
           day_of_week = None, entry_hour = None\<rparr> act)"

definition load_active_sessions :: "DwellTimeTracker \<Rightarrow> DwellTimeTracker" where
  "load_active_sessions tr =
     (let act = load_rows (filter (\<lambda>r. row_is_active r = 1) (db tr)) (active_sessions tr);
          tr1 = tr\<lparr>active_sessions := act\<rparr>
      in if act \<noteq> [] then tr1\<lparr>logged := logged tr1 @ [Info_loaded (length act)]\<rparr> else tr1)"

text \<open>
  The constructor.  \<open>db_ok\<close> tells whether the sqlite operations of this call
  succeed; when they do not, \<open>sqlite3\<close> raises and no tracker exists.  \<open>rows\<close> is
  the content of the table found at \<open>db_path\<close> (empty for a fresh file); \<open>CREATE
  TABLE IF NOT EXISTS\<close> leaves it as it is.
\<close>

definition init_tracker :: "bool \<Rightarrow> session_row list \<Rightarrow> int \<Rightarrow> int \<Rightarrow> error + DwellTimeTracker" where
  "init_tracker db_ok rows warning alert =
     (if \<not> db_ok then Inl OperationalError
      else
        let tr0 = \<lparr>warning_threshold = warning, alert_threshold = alert,
                   active_sessions = [], db = rows, logged = []\<rparr>;
            tr1 = load_active_sessions tr0
        in Inr (tr1\<lparr>logged := logged tr1 @ [Info_initialized]\<rparr>))"

text \<open>
  \<open>record_entry\<close> and \<open>record_exit\<close> return the tracker after the call and the
  exception raised, if any.  The in-memory state is mutated before the database is
  written, and stays mutated when the write raises.
\<close>

definition record_entry ::
  "bool \<Rightarrow> datetime \<Rightarrow> DwellTimeTracker \<Rightarrow> int \<Rightarrow> datetime option \<Rightarrow> DwellTimeTracker \<times> error option" where
  "record_entry db_ok now tr tid timestamp =
     (let ts = (case timestamp of None \<Rightarrow> now | Some t \<Rightarrow> t);
          session = new_session tid ts;
          tr1 = tr\<lparr>active_sessions := AList.update tid session (active_sessions tr)\<rparr>
      in if \<not> db_ok then (tr1, Some OperationalError)
         else
           (tr1\<lparr>db := db tr1 @
                    [\<lparr>row_track_id = tid, row_entry_time = ts, row_exit_time = None,
                      row_dwell_minutes = None, row_day_of_week = None,
                      row_entry_hour = None, row_is_active = 1\<rparr>],
                 logged := logged tr1 @ [Info_entry tid ts]\<rparr>, None))"

text \<open>The UPDATE statement of \<open>record_exit\<close>: every row of the identity with \<open>is_active = 1\<close>.\<close>

definition close_rows :: "int \<Rightarrow> datetime \<Rightarrow> DwellSession \<Rightarrow> session_row list \<Rightarrow> session_row list" where
  "close_rows tid ts session rows =
     map (\<lambda>r. if row_track_id r = tid \<and> row_is_active r = 1
               then r\<lparr>row_exit_time := Some ts,
                      row_dwell_minutes := dwell_minutes session,
                      row_day_of_week := day_of_week session,
                      row_entry_hour := entry_hour session,
                      row_is_active := 0\<rparr>
               else r) rows"

definition record_exit ::
  "bool \<Rightarrow> datetime \<Rightarrow> DwellTimeTracker \<Rightarrow> int \<Rightarrow> datetime option \<Rightarrow> DwellTimeTracker \<times> error option" where
  "record_exit db_ok now tr tid timestamp =
     (let ts = (case timestamp of None \<Rightarrow> now | Some t \<Rightarrow> t)
      in case map_of (active_sessions tr) tid of
           None \<Rightarrow> (tr\<lparr>logged := logged tr @ [Warning_unknown_exit tid]\<rparr>, None)
         | Some s0 \<Rightarrow>
             let session = calculate_dwell_time (s0\<lparr>exit_time := Some ts\<rparr>);
                 tr1 = tr\<lparr>active_sessions := AList.update tid session (active_sessions tr)\<rparr>
             in if \<not> db_ok then (tr1, Some OperationalError)
                else
                  (tr1\<lparr>db := close_rows tid ts session (db tr1),
                        active_sessions := AList.delete tid (active_sessions tr1),
                        logged := logged tr1 @ [Info_exit tid (dwell_minutes session)]\<rparr>,
                   None))"

definition get_active_sessions :: "DwellTimeTracker \<Rightarrow> DwellSession list" where
  "get_active_sessions tr = map snd (active_sessions tr)"

text \<open>
  \<open>list.sort(key=..., reverse=True)\<close> computes the key of every element once,
  in list order, and sorts stably into descending order of these keys.
  \<open>key j x\<close> is the key computed for the element \<open>x\<close> at position \<open>j\<close>; on
  real keys the descending stable sort is the ascending stable sort by the
  negated key.
\<close>

definition decorate :: "(nat \<Rightarrow> 'a \<Rightarrow> real) \<Rightarrow> 'a list \<Rightarrow> (real \<times> 'a) list" where
  "decorate key xs = map (\<lambda>(j, x). (key j x, x)) (enumerate 0 xs)"

definition sort_reverse :: "(nat \<Rightarrow> 'a \<Rightarrow> real) \<Rightarrow> 'a list \<Rightarrow> 'a list" where
  "sort_reverse key xs = map snd (sort_key (\<lambda>(k, x). - k) (decorate key xs))"

text \<open>
  \<open>get_campers\<close> and \<open>get_warnings\<close> call \<open>get_current_dwell_minutes\<close> once
  for every session in the loop that selects, and once more for every selected
  session when the sort computes its key; each of these calls reads
  \<open>datetime.now()\<close> (unless the session has an exit time).  \<open>clock\<close> gives the
  readings of one query: \<open>clock i\<close> is the reading for the \<open>i\<close>-th session of
  the loop and, with \<open>n\<close> sessions, \<open>clock (n + j)\<close> the reading for the key of
  the \<open>j\<close>-th selected session.
\<close>

definition get_campers :: "(nat \<Rightarrow> datetime) \<Rightarrow> DwellTimeTracker \<Rightarrow> int option \<Rightarrow> DwellSession list" where
  "get_campers clock tr threshold_minutes =
     (let threshold = (case threshold_minutes of None \<Rightarrow> alert_threshold tr | Some t \<Rightarrow> t);
          sessions = map snd (active_sessions tr);
          campers = map snd
            (filter (\<lambda>(i, s). get_current_dwell_minutes (clock i) s \<ge> real_of_int threshold)
               (enumerate 0 sessions))
      in sort_reverse (\<lambda>j. get_current_dwell_minutes (clock (length sessions + j))) campers)"

definition get_warnings :: "(nat \<Rightarrow> datetime) \<Rightarrow> DwellTimeTracker \<Rightarrow> DwellSession list" where
  "get_warnings clock tr =
     (let sessions = map snd (active_sessions tr);
          warnings = map snd
            (filter (\<lambda>(i, s). real_of_int (warning_threshold tr) \<le> get_current_dwell_minutes (clock i) s
                            \<and> get_current_dwell_minutes (clock i) s < real_of_int (alert_threshold tr))
               (enumerate 0 sessions))
      in sort_reverse (\<lambda>j. get_current_dwell_minutes (clock (length sessions + j))) warnings)"

text \<open>
  Auxiliary notions for stating the properties: the tracker that the constructor
  builds over an empty table with the default thresholds, and a clock that reads
  \<open>t\<close> first and advances by \<open>step\<close> microseconds from one reading to the next.
\<close>

definition fresh_tracker :: DwellTimeTracker where
  "fresh_tracker = \<lparr>warning_threshold = 90, alert_threshold = 120,
         active_sessions = [], db = [], logged = [Info_initialized]\<rparr>"

definition ticking :: "datetime \<Rightarrow> int \<Rightarrow> nat \<Rightarrow> datetime" where
  "ticking t step k = t + step * int k"

subsection \<open>Properties of the dwell tracker\<close>

lemma delete_absent:
  "map_of al k = None \<Longrightarrow> AList.delete k al = al"
  by (induction al) (auto simp: AList.delete_eq split: if_splits)

lemma close_rows_noop:
  "\<forall>r \<in> set rows. row_track_id r = tid \<longrightarrow> row_is_active r \<noteq> 1 \<Longrightarrow>
   close_rows tid ts s rows = rows"
  unfolding close_rows_def by (induction rows) auto


lemma set_decorate:
  "set (decorate key xs) = {(key j (xs ! j), xs ! j) | j. j < length xs}"
proof -
  have "set (decorate key xs) = (\<lambda>(j, x). (key j x, x)) ` set (enumerate 0 xs)"
    by (simp add: decorate_def)
  also have "\<dots> = {(key j (xs ! j), xs ! j) | j. j < length xs}"
    by (auto simp: in_set_enumerate_eq image_iff)
  finally show ?thesis .
qed

lemma map_snd_decorate: "map snd (decorate key xs) = xs"
proof -
  have "map snd (decorate key xs) = map snd (enumerate 0 xs)"
    by (simp add: decorate_def case_prod_beta comp_def)
  then show ?thesis by simp
qed

lemma set_sort_reverse: "set (sort_reverse key xs) = set xs"
proof -
  have "set (sort_reverse key xs) = snd ` set (decorate key xs)"
    by (simp add: sort_reverse_def)
  also have "\<dots> = set (map snd (decorate key xs))" by simp
  finally show ?thesis by (simp only: map_snd_decorate)
qed

lemma sort_reverse_keys:
  "\<exists>ks. length ks = length (sort_reverse key xs) \<and> sorted_wrt (\<ge>) ks
        \<and> (\<forall>m < length (sort_reverse key xs). \<exists>j < length xs. ks ! m = key j (sort_reverse key xs ! m))"
proof -
  let ?P = "sort_key (\<lambda>(k, x). - k) (decorate key xs)"
  have "sorted (map (\<lambda>(k, x). - k) ?P)" by (rule sorted_sort_key)
  then have 1: "sorted_wrt (\<ge>) (map fst ?P)"
    by (simp add: sorted_map sorted_wrt_map case_prod_beta)
  have 2: "\<exists>j < length xs. map fst ?P ! m = key j (sort_reverse key xs ! m)"
    if "m < length (sort_reverse key xs)" for m
  proof -
    from that have m: "m < length ?P" by (simp add: sort_reverse_def)
    then have "?P ! m \<in> set (decorate key xs)" by (metis nth_mem set_sort)
    then obtain j where "j < length xs" "?P ! m = (key j (xs ! j), xs ! j)"
      by (auto simp: set_decorate)
    then show ?thesis using m by (auto simp: sort_reverse_def)
  qed
  show ?thesis
    using 1 2 by (intro exI [of _ "map fst ?P"]) (simp add: sort_reverse_def)
qed

lemma selected_session:
  assumes "s \<in> set (map snd (filter P (enumerate 0 xs)))"
  shows "\<exists>i < length xs. xs ! i = s \<and> P (i, s)"
  using assms by (auto simp: in_set_enumerate_eq)

text \<open>
  C4.  \<open>record_exit\<close> for an identity that has no open session in the tracker
  only logs a warning: the active-session map and the table are what they were,
  no session is created or changed, and the call returns without raising, also
  when the database is unavailable (it is not touched).
\<close>

theorem record_exit_unknown_noop:
  assumes "map_of (active_sessions tr) tid = None"
  shows "record_exit db_ok now tr tid timestamp =
           (tr\<lparr>logged := logged tr @ [Warning_unknown_exit tid]\<rparr>, None)"
  using assms by (simp add: record_exit_def)

theorem record_exit_unknown_noop_witness:
  "map_of (active_sessions
      \<lparr>warning_threshold = 90, alert_threshold = 120,
       active_sessions = [(1, new_session 1 0)], db = [], logged = []\<rparr>) 7 = None
   \<and> record_exit False 5
        \<lparr>warning_threshold = 90, alert_threshold = 120,
         active_sessions = [(1, new_session 1 0)], db = [], logged = []\<rparr> 7 None =
       (\<lparr>warning_threshold = 90, alert_threshold = 120,
         active_sessions = [(1, new_session 1 0)], db = [],
         logged = [Warning_unknown_exit 7]\<rparr>, None)"
  using record_exit_unknown_noop
    [of "\<lparr>warning_threshold = 90, alert_threshold = 120,
         active_sessions = [(1, new_session 1 0)], db = [], logged = []\<rparr>" 7 False 5 None]
  by simp

text \<open>
  C3.  An identity without an open session (neither in the tracker nor as an
  active row of the table) that enters at \<open>t1\<close> and leaves at \<open>t2 \<ge> t1\<close>:
  both calls return normally, the table gains exactly one row, which is closed
  (\<open>is_active = 0\<close>), carries the dwell \<open>(t2 - t1)\<close> in minutes (timestamps
  count microseconds, so that is \<open>(t2 - t1) / 60000000\<close>, exact on the reals,
  and not negative), the hour of \<open>t1\<close> and the weekday name of \<open>t1\<close>; no other
  row changes and the identity has no open session afterwards.
\<close>

theorem entry_then_exit_one_closed_session:
  assumes noopen: "map_of (active_sessions tr) tid = None"
    and norow: "\<forall>r \<in> set (db tr). row_track_id r = tid \<longrightarrow> row_is_active r \<noteq> 1"
    and le: "t1 \<le> t2"
    and en: "record_entry True now1 tr tid (Some t1) = (tr1, e1)"
    and ex: "record_exit True now2 tr1 tid (Some t2) = (tr2, e2)"
  shows "e1 = None \<and> e2 = None
       \<and> db tr2 = db tr @
            [\<lparr>row_track_id = tid, row_entry_time = t1, row_exit_time = Some t2,
              row_dwell_minutes = Some (real_of_int (t2 - t1) / 60000000),
              row_day_of_week = Some (strftime_A t1), row_entry_hour = Some (hour t1),
              row_is_active = 0\<rparr>]
       \<and> active_sessions tr2 = active_sessions tr
       \<and> 0 \<le> real_of_int (t2 - t1) / 60000000"
proof -
  have cl: "close_rows tid ts s (db tr) = db tr" for ts s
    using norow by (rule close_rows_noop)
  from en have tr1: "tr1 = tr\<lparr>active_sessions := AList.update tid (new_session tid t1) (active_sessions tr),
        db := db tr @ [\<lparr>row_track_id = tid, row_entry_time = t1, row_exit_time = None,
                      row_dwell_minutes = None, row_day_of_week = None,
                      row_entry_hour = None, row_is_active = 1\<rparr>],
        logged := logged tr @ [Info_entry tid t1]\<rparr>" and e1: "e1 = None"
    by (auto simp: record_entry_def Let_def)
  have look: "map_of (active_sessions tr1) tid = Some (new_session tid t1)"
    by (simp add: tr1 update_conv')
  show ?thesis
    using ex le unfolding record_exit_def look
    by (auto simp: e1 tr1 Let_def calculate_dwell_time_def new_session_def total_seconds_def
        close_rows_def cl[unfolded close_rows_def] delete_absent[OF noopen] delete_update_same)
qed

theorem entry_then_exit_one_closed_session_witness:
  "\<exists>tr tr1 tr2.
     init_tracker True [] 90 120 = Inr tr
   \<and> map_of (active_sessions tr) 42 = None
   \<and> (\<forall>r \<in> set (db tr). row_track_id r = 42 \<longrightarrow> row_is_active r \<noteq> 1)
   \<and> (63763250400000000::int) \<le> 63763253220000000
   \<and> record_entry True 0 tr 42 (Some 63763250400000000) = (tr1, None)
   \<and> record_exit True 0 tr1 42 (Some 63763253220000000) = (tr2, None)
   \<and> db tr2 =
        [\<lparr>row_track_id = 42, row_entry_time = 63763250400000000,
          row_exit_time = Some 63763253220000000, row_dwell_minutes = Some 47,
          row_day_of_week = Some ''Friday'', row_entry_hour = Some 14,
          row_is_active = 0\<rparr>]
   \<and> active_sessions tr2 = []"
proof -
  define tr where "tr = \<lparr>warning_threshold = 90, alert_threshold = 120,
         active_sessions = [], db = [], logged = [Info_initialized]\<rparr>"
  obtain tr1 e1 where en: "record_entry True 0 tr 42 (Some 63763250400000000) = (tr1, e1)"
    by (cases "record_entry True 0 tr 42 (Some 63763250400000000)")
  obtain tr2 e2 where ex: "record_exit True 0 tr1 42 (Some 63763253220000000) = (tr2, e2)"
    by (cases "record_exit True 0 tr1 42 (Some 63763253220000000)")
  have i: "init_tracker True [] 90 120 = Inr tr"
    by (simp add: init_tracker_def load_active_sessions_def tr_def)
  have a: "map_of (active_sessions tr) 42 = None" by (simp add: tr_def)
  have b: "\<forall>r \<in> set (db tr). row_track_id r = 42 \<longrightarrow> row_is_active r \<noteq> 1"
    by (simp add: tr_def)
  have c: "(63763250400000000::int) \<le> 63763253220000000" by simp
  have h: "hour 63763250400000000 = 14" by (simp add: hour_def)
  have w: "strftime_A 63763250400000000 = ''Friday''"
    by (simp add: strftime_A_def weekday_def)
  from entry_then_exit_one_closed_session [OF a b c en ex] i a b c en ex h w
  show ?thesis by (auto simp: tr_def)
qed

text \<open>
  C5.  Constructing a tracker over a table in which exactly one row has
  \<open>is_active = 1\<close>, that row having no exit timestamp, succeeds and yields
  exactly one in-memory session: it belongs to the row's identity, has the row's
  entry timestamp and is open.  The recovery is part of the constructor (it is
  logged once, before the constructor's own log line), so it has run before the
  tracker exists for any \<open>record_entry\<close> or \<open>record_exit\<close>; the table is
  left as it was.
\<close>

theorem restart_reloads_open_session:
  assumes one: "filter (\<lambda>r. row_is_active r = 1) rows = [r]"
    and noexit: "row_exit_time r = None"
  shows "\<exists>tr s. init_tracker True rows warning alert = Inr tr
       \<and> get_active_sessions tr = [s]
       \<and> active_sessions tr = [(row_track_id r, s)]
       \<and> track_id s = row_track_id r
       \<and> entry_time s = row_entry_time r
       \<and> is_active s
       \<and> db tr = rows
       \<and> logged tr = [Info_loaded 1, Info_initialized]"
  using assms
  by (simp add: init_tracker_def load_active_sessions_def get_active_sessions_def
      is_active_def Let_def)

theorem restart_reloads_open_session_witness:
  "filter (\<lambda>r. row_is_active r = 1)
      (db (fst (record_entry True 0 fresh_tracker 5 (Some 1000)))) =
      [\<lparr>row_track_id = 5, row_entry_time = 1000, row_exit_time = None,
        row_dwell_minutes = None, row_day_of_week = None, row_entry_hour = None,
        row_is_active = 1\<rparr>]
   \<and> (\<exists>tr. init_tracker True (db (fst (record_entry True 0 fresh_tracker 5 (Some 1000)))) 90 120
             = Inr tr
          \<and> get_active_sessions tr = [new_session 5 1000]
          \<and> logged tr = [Info_loaded 1, Info_initialized])"
proof -
  let ?r = "\<lparr>row_track_id = 5, row_entry_time = 1000, row_exit_time = None,
        row_dwell_minutes = None, row_day_of_week = None, row_entry_hour = None,
        row_is_active = 1\<rparr>"
  let ?rows = "db (fst (record_entry True 0 fresh_tracker 5 (Some 1000)))"
  have rows: "?rows = [?r]"
    by (simp add: record_entry_def fresh_tracker_def Let_def)
  have one: "filter (\<lambda>r. row_is_active r = 1) ?rows = [?r]"
    by (simp add: rows)
  have noexit: "row_exit_time ?r = None" by simp
  from restart_reloads_open_session [OF one noexit, of 90 120]
  obtain tr s where "init_tracker True ?rows 90 120 = Inr tr" "get_active_sessions tr = [s]"
    "active_sessions tr = [(5, s)]" "logged tr = [Info_loaded 1, Info_initialized]"
    by auto
  moreover from this have "s = new_session 5 1000"
    by (auto simp: rows init_tracker_def load_active_sessions_def new_session_def Let_def)
  ultimately show ?thesis using one by auto
qed

text \<open>
  C6.  The code does not keep two independent open sessions.  On the tracker built
  over an empty table, an identity enters on Friday 2021-07-30 at 14:00, enters
  again on Saturday at 15:00 and leaves on Saturday at 16:00.  After the second
  \<open>record_entry\<close> the active-session map holds one session, the second (the
  first was overwritten).  \<open>record_exit\<close> then closes both rows of the table,
  and writes into the row of the first visit the dwell (60 minutes), the weekday
  (Saturday) and the hour (15) of the second, where the first visit began on
  Friday at 14:00 and lasted 26 hours (\<open>DwellSession\<close> documents these fields
  as "How long they stayed" and "Hour they entered").
\<close>

theorem reentry_closes_stale_row:
  "init_tracker True [] 90 120 = Inr fresh_tracker
   \<and> get_active_sessions
        (fst (record_entry True 0
               (fst (record_entry True 0 fresh_tracker 7 (Some 63763250400000000))) 7
               (Some 63763340400000000))) = [new_session 7 63763340400000000]
   \<and> db (fst (record_exit True 0
        (fst (record_entry True 0
               (fst (record_entry True 0 fresh_tracker 7 (Some 63763250400000000))) 7
               (Some 63763340400000000))) 7 (Some 63763344000000000))) =
       [\<lparr>row_track_id = 7, row_entry_time = 63763250400000000,
         row_exit_time = Some 63763344000000000, row_dwell_minutes = Some 60,
         row_day_of_week = Some ''Saturday'', row_entry_hour = Some 15, row_is_active = 0\<rparr>,
        \<lparr>row_track_id = 7, row_entry_time = 63763340400000000,
         row_exit_time = Some 63763344000000000, row_dwell_minutes = Some 60,
         row_day_of_week = Some ''Saturday'', row_entry_hour = Some 15, row_is_active = 0\<rparr>]"
  by (simp add: init_tracker_def load_active_sessions_def fresh_tracker_def record_entry_def
      record_exit_def get_active_sessions_def close_rows_def new_session_def
      calculate_dwell_time_def total_seconds_def hour_def strftime_A_def weekday_def
      Let_def AList.delete_eq)




text \<open>
  When the clock stands still at \<open>t\<close> during both queries, the lists are as the
  claim describes them: campers at or above the alert threshold, warnings in the
  interval, no session in both, both in descending order of the dwell at \<open>t\<close>.
\<close>

lemma sort_reverse_standing:
  "sorted_wrt (\<ge>) (map g (sort_reverse (\<lambda>j. g) xs))"
proof -
  from sort_reverse_keys [of "\<lambda>j. g" xs]
  obtain ks where l: "length ks = length (sort_reverse (\<lambda>j. g) xs)" and s: "sorted_wrt (\<ge>) ks"
    and k: "\<forall>m < length (sort_reverse (\<lambda>j. g) xs). ks ! m = g (sort_reverse (\<lambda>j. g) xs ! m)"
    by auto
  have "ks = map g (sort_reverse (\<lambda>j. g) xs)"
    using l k by (intro nth_equalityI) simp_all
  with s show ?thesis by simp
qed

lemma campers_warnings_standing_clock:
  "(\<forall>s \<in> set (get_campers (ticking t 0) tr None).
       real_of_int (alert_threshold tr) \<le> get_current_dwell_minutes t s)
   \<and> (\<forall>s \<in> set (get_warnings (ticking t 0) tr).
       real_of_int (warning_threshold tr) \<le> get_current_dwell_minutes t s
       \<and> get_current_dwell_minutes t s < real_of_int (alert_threshold tr))
   \<and> set (get_campers (ticking t 0) tr None) \<inter> set (get_warnings (ticking t 0) tr) = {}
   \<and> sorted_wrt (\<ge>) (map (get_current_dwell_minutes t) (get_campers (ticking t 0) tr None))
   \<and> sorted_wrt (\<ge>) (map (get_current_dwell_minutes t) (get_warnings (ticking t 0) tr))"
proof -
  have t: "ticking t 0 = (\<lambda>k. t)" by (simp add: ticking_def fun_eq_iff)
  show ?thesis
    unfolding t get_campers_def get_warnings_def Let_def
    by (auto simp: set_sort_reverse sort_reverse_standing dest!: selected_session)
qed

section \<open>occupancy\_tracker.py\<close>

text \<open>
  The tables \<open>snapshots\<close> and \<open>events\<close> are lists of rows in insertion order
  (their autoincrement \<open>id\<close> is the position).  The background thread that
  takes a snapshot every \<open>snapshot_interval\<close> seconds is not part of the model;
  \<open>update\<close> is the call made under the lock.  The fields of the tracker carry the
  prefix \<open>ot_\<close> where the counter of \<open>counting_logic.py\<close> has fields of the same
  name.
\<close>

record OccupancySnapshot =
  snap_timestamp :: datetime
  snap_current_occupancy :: int
  snap_total_entries :: int
  snap_total_exits :: int
  snap_active_tracks :: int

record OccupancyEvent =
  timestamp :: datetime
  event_type :: string
  occupancy_after :: int

record OccupancyTracker =
  snapshot_interval :: int
  ot_current_occupancy :: int
  ot_total_entries :: int
  ot_total_exits :: int
  ot_active_tracks :: int
  last_snapshot_time :: real
  snapshots :: "OccupancySnapshot list"
  events :: "OccupancyEvent list"

text \<open>\<open>_record_event\<close> and \<open>_take_snapshot\<close>; \<open>now\<close> is \<open>datetime.now()\<close>.\<close>

definition record_event :: "datetime \<Rightarrow> string \<Rightarrow> OccupancyTracker \<Rightarrow> OccupancyTracker" where
  "record_event now etype tr =
     (let event = \<lparr>timestamp = now, event_type = etype,
                    occupancy_after = ot_current_occupancy tr\<rparr>
      in tr\<lparr>events := events tr @ [event]\<rparr>)"

definition take_snapshot :: "datetime \<Rightarrow> OccupancyTracker \<Rightarrow> OccupancyTracker" where
  "take_snapshot now tr =
     (let snapshot = \<lparr>snap_timestamp = now,
                       snap_current_occupancy = ot_current_occupancy tr,
                       snap_total_entries = ot_total_entries tr,
                       snap_total_exits = ot_total_exits tr,
                       snap_active_tracks = ot_active_tracks tr\<rparr>
      in tr\<lparr>snapshots := snapshots tr @ [snapshot]\<rparr>)"

text \<open>\<open>for _ in range(n): self._record_event(event_type)\<close>\<close>

fun record_events :: "nat \<Rightarrow> datetime \<Rightarrow> string \<Rightarrow> OccupancyTracker \<Rightarrow> OccupancyTracker" where
  "record_events 0 now etype tr = tr"
| "record_events (Suc n) now etype tr = record_events n now etype (record_event now etype tr)"

text \<open>
  \<open>update(stats)\<close>.  \<open>stats\<close> is a dictionary; a missing key raises
  \<open>KeyError\<close> before anything is assigned, except \<open>active_tracks\<close>, which
  defaults to 0.  \<open>t\<close> is the reading of \<open>time.time()\<close>, \<open>now\<close> the one of
  \<open>datetime.now()\<close>; \<open>db_ok\<close> tells whether the sqlite operations of this call
  succeed (the first write raises when they do not).
\<close>

definition OccupancyTracker_update ::
  "bool \<Rightarrow> real \<Rightarrow> datetime \<Rightarrow> OccupancyTracker \<Rightarrow> (string \<rightharpoonup> int) \<Rightarrow> OccupancyTracker \<times> error option" where
  "OccupancyTracker_update db_ok t now tr stats =
     (case stats ''total_entries'' of None \<Rightarrow> (tr, Some KeyError) | Some te \<Rightarrow>
      case stats ''total_exits'' of None \<Rightarrow> (tr, Some KeyError) | Some tx \<Rightarrow>
      case stats ''current_occupancy'' of None \<Rightarrow> (tr, Some KeyError) | Some co \<Rightarrow>
        let new_entries = te - ot_total_entries tr;
            new_exits = tx - ot_total_exits tr;
            tr1 = tr\<lparr>ot_current_occupancy := co, ot_total_entries := te,
                     ot_total_exits := tx,
                     ot_active_tracks := (case stats ''active_tracks'' of None \<Rightarrow> 0 | Some a \<Rightarrow> a)\<rparr>;
            due = (t - last_snapshot_time tr1 \<ge> real_of_int (snapshot_interval tr1))
        in if \<not> db_ok \<and> (new_entries > 0 \<or> new_exits > 0 \<or> due)
           then (tr1, Some OperationalError)
           else
             let tr2 = (if new_entries > 0
                        then record_events (nat new_entries) now ''entry'' tr1 else tr1);
                 tr3 = (if new_exits > 0
                        then record_events (nat new_exits) now ''exit'' tr2 else tr2)
             in (if due then (take_snapshot now tr3)\<lparr>last_snapshot_time := t\<rparr> else tr3,
                 None))"

text \<open>The state the constructor sets up over a fresh database, at time \<open>t\<close>.\<close>

definition OccupancyTracker_init :: "real \<Rightarrow> int \<Rightarrow> OccupancyTracker" where
  "OccupancyTracker_init t interval =
     \<lparr>snapshot_interval = interval, ot_current_occupancy = 0, ot_total_entries = 0,
      ot_total_exits = 0, ot_active_tracks = 0, last_snapshot_time = t,
      snapshots = [], events = []\<rparr>"

subsection \<open>Properties of the occupancy tracker\<close>

lemma events_record_events:
  "events (record_events n now etype tr) =
     events tr @ replicate n \<lparr>timestamp = now, event_type = etype,
                               occupancy_after = ot_current_occupancy tr\<rparr>"
  by (induction n arbitrary: tr)
     (simp_all add: record_event_def replicate_app_Cons_same)

lemma occ_record_events [simp]:
  "ot_current_occupancy (record_events n now etype tr) = ot_current_occupancy tr"
  by (induction n arbitrary: tr) (simp_all add: record_event_def)

text \<open>
  What \<open>update\<close> records: one \<open>entry\<close> row per unit of the positive difference
  between the supplied and the stored total of entries, then one \<open>exit\<close> row per
  unit of the difference of exits, every row carrying the occupancy supplied with
  this call.
\<close>

lemma update_records_events:
  assumes "stats ''total_entries'' = Some te" "stats ''total_exits'' = Some tx"
    "stats ''current_occupancy'' = Some co"
    "OccupancyTracker_update True t now tr stats = (tr', e)"
  shows "e = None \<and> events tr' = events tr
     @ replicate (nat (te - ot_total_entries tr))
         \<lparr>timestamp = now, event_type = ''entry'', occupancy_after = co\<rparr>
     @ replicate (nat (tx - ot_total_exits tr))
         \<lparr>timestamp = now, event_type = ''exit'', occupancy_after = co\<rparr>"
  using assms
  by (auto simp: OccupancyTracker_update_def Let_def events_record_events take_snapshot_def)

text \<open>
  C9.  The deltas and the number of rows are as claimed
  (\<open>update_records_events\<close>), but a row does not carry the occupancy after its
  own event when a call brings more than one: on a fresh tracker, an update with
  totals of two entries and no exit and occupancy 2 records two \<open>entry\<close> rows,
  both with \<open>occupancy_after = 2\<close>, where the occupancy after the first entry
  was 1.
\<close>

theorem update_batch_events_share_occupancy:
  "map occupancy_after (events (fst (OccupancyTracker_update True 1 5 (OccupancyTracker_init 0 60)
      [''current_occupancy'' \<mapsto> 2, ''total_entries'' \<mapsto> 2, ''total_exits'' \<mapsto> 0,
       ''active_tracks'' \<mapsto> 2]))) = [2, 2]
   \<and> map event_type (events (fst (OccupancyTracker_update True 1 5 (OccupancyTracker_init 0 60)
      [''current_occupancy'' \<mapsto> 2, ''total_entries'' \<mapsto> 2, ''total_exits'' \<mapsto> 0,
       ''active_tracks'' \<mapsto> 2]))) = [''entry'', ''entry'']"
  by (simp add: OccupancyTracker_update_def OccupancyTracker_init_def Let_def
      record_event_def eval_nat_numeral)

section \<open>counting\_logic.py\<close>

subsection \<open>numpy arrays of distances\<close>

text \<open>
  An entry of the distance matrix is a float; the matcher overwrites entries with
  \<open>float('inf')\<close>, so the model has the finite values (real numbers) and
  \<open>Inf\<close>, ordered as floats are.
\<close>

datatype npfloat = Finite real | Inf

instantiation npfloat :: linorder
begin

fun less_eq_npfloat :: "npfloat \<Rightarrow> npfloat \<Rightarrow> bool" where
  "less_eq_npfloat (Finite a) (Finite b) = (a \<le> b)"
| "less_eq_npfloat (Finite a) Inf = True"
| "less_eq_npfloat Inf (Finite b) = False"
| "less_eq_npfloat Inf Inf = True"

definition less_npfloat :: "npfloat \<Rightarrow> npfloat \<Rightarrow> bool" where
  "less_npfloat x y = (x \<le> y \<and> \<not> y \<le> x)"

instance
proof
  fix x y z :: npfloat
  show "(x < y) = (x \<le> y \<and> \<not> y \<le> x)" by (simp add: less_npfloat_def)
  show "x \<le> x" by (cases x) simp_all
  show "x \<le> y \<Longrightarrow> y \<le> z \<Longrightarrow> x \<le> z" by (cases x; cases y; cases z) simp_all
  show "x \<le> y \<Longrightarrow> y \<le> x \<Longrightarrow> x = y" by (cases x; cases y) simp_all
  show "x \<le> y \<or> y \<le> x" by (cases x; cases y) auto
qed

end

lemma npfloat_less_simps [simp]:
  "(Finite a < Finite b) = (a < b)"
  "(Finite a < Inf) = True"
  "(Inf < x) = False"
  by (cases x; auto simp: less_npfloat_def)+

text \<open>
  A two-dimensional array is its shape and its entries.  \<open>flatten\<close> lists the
  entries in row-major order, the order in which \<open>min\<close> and \<open>argmin\<close> scan
  them.  Both raise \<open>ValueError\<close> on an array without entries; \<open>argmin\<close> returns
  the flat index of the first minimal entry, which \<open>unravel_index\<close> turns into a
  row and a column.
\<close>

record ndarray =
  nrows :: nat
  ncols :: nat
  cell :: "nat \<Rightarrow> nat \<Rightarrow> npfloat"

definition shape :: "ndarray \<Rightarrow> nat \<times> nat" where
  "shape a = (nrows a, ncols a)"

definition flatten :: "ndarray \<Rightarrow> npfloat list" where
  "flatten a = map (\<lambda>(i, j). cell a i j) (List.product [0..<nrows a] [0..<ncols a])"

definition amin :: "ndarray \<Rightarrow> error + npfloat" where
  "amin a = (if flatten a = [] then Inl ValueError else Inr (min_list (flatten a)))"

definition first_index :: "'a list \<Rightarrow> 'a \<Rightarrow> nat" where
  "first_index xs x = length (takeWhile (\<lambda>y. y \<noteq> x) xs)"

definition argmin :: "ndarray \<Rightarrow> error + nat" where
  "argmin a =
     (if flatten a = [] then Inl ValueError
      else Inr (first_index (flatten a) (min_list (flatten a))))"

definition unravel_index :: "nat \<Rightarrow> nat \<times> nat \<Rightarrow> nat \<times> nat" where
  "unravel_index k shp = (k div snd shp, k mod snd shp)"

text \<open>\<open>distances[i, :] = v\<close> and \<open>distances[:, j] = v\<close>\<close>

definition set_row :: "nat \<Rightarrow> npfloat \<Rightarrow> ndarray \<Rightarrow> ndarray" where
  "set_row i v a = a\<lparr>cell := (\<lambda>r c. if r = i then v else cell a r c)\<rparr>"

definition set_col :: "nat \<Rightarrow> npfloat \<Rightarrow> ndarray \<Rightarrow> ndarray" where
  "set_col j v a = a\<lparr>cell := (\<lambda>r c. if c = j then v else cell a r c)\<rparr>"

text \<open>The number of entries not above the threshold: it decreases in every round of the matcher.\<close>

definition below :: "real \<Rightarrow> ndarray \<Rightarrow> nat" where
  "below max_distance a = length (filter (\<lambda>x. x \<le> Finite max_distance) (flatten a))"

lemma length_flatten [simp]: "length (flatten a) = nrows a * ncols a"
  by (simp add: flatten_def)

lemma flatten_nth:
  "k < nrows a * ncols a \<Longrightarrow> flatten a ! k = cell a (k div ncols a) (k mod ncols a)"
proof -
  assume k: "k < nrows a * ncols a"
  then have c: "0 < ncols a" by (cases "ncols a") auto
  have d: "k div ncols a < nrows a"
    using k by (simp add: less_mult_imp_div_less)
  have m: "k mod ncols a < ncols a" using c by simp
  show ?thesis using k d m
    by (simp add: flatten_def product_nth)
qed

lemma flatten_empty_iff: "flatten a = [] \<longleftrightarrow> nrows a = 0 \<or> ncols a = 0"
proof -
  have "flatten a = [] \<longleftrightarrow> length (flatten a) = 0" by (rule length_0_conv [symmetric])
  then show ?thesis by simp
qed

lemma first_index_mem:
  "x \<in> set xs \<Longrightarrow> first_index xs x < length xs \<and> xs ! first_index xs x = x"
  unfolding first_index_def by (induction xs) auto

lemma first_index_min:
  fixes xs :: "'a::linorder list"
  assumes "xs \<noteq> []"
  shows "first_index xs (min_list xs) < length xs \<and> xs ! first_index xs (min_list xs) = min_list xs"
proof -
  have "min_list xs \<in> set xs" using assms by (simp add: min_list_Min)
  then show ?thesis by (rule first_index_mem)
qed

lemma min_list_le:
  fixes xs :: "'a::linorder list"
  shows "x \<in> set xs \<Longrightarrow> min_list xs \<le> x"
proof -
  assume x: "x \<in> set xs"
  then have "xs \<noteq> []" by auto
  then have "min_list xs = Min (set xs)" by (rule min_list_Min)
  then show ?thesis using x by simp
qed

lemma mark_simps [simp]:
  "nrows (set_col j v (set_row i v a)) = nrows a"
  "ncols (set_col j v (set_row i v a)) = ncols a"
  "cell (set_col j v (set_row i v a)) r c = (if r = i \<or> c = j then v else cell a r c)"
  by (simp_all add: set_col_def set_row_def)

lemma argmin_facts:
  assumes "amin a = Inr m" "argmin a = Inr k"
  shows "k < nrows a * ncols a"
    and "cell a (k div ncols a) (k mod ncols a) = m"
    and "k div ncols a < nrows a" and "k mod ncols a < ncols a"
    and "\<And>r c. r < nrows a \<Longrightarrow> c < ncols a \<Longrightarrow> m \<le> cell a r c"
proof -
  from assms have ne: "flatten a \<noteq> []" and m: "m = min_list (flatten a)"
    and k: "k = first_index (flatten a) (min_list (flatten a))"
    by (auto simp: amin_def argmin_def split: if_splits)
  from first_index_min [OF ne] show lt: "k < nrows a * ncols a"
    and "cell a (k div ncols a) (k mod ncols a) = m"
    by (simp_all add: k m flatten_nth [symmetric])
  then have c: "0 < ncols a" by (cases "ncols a") auto
  show "k div ncols a < nrows a" using lt by (simp add: less_mult_imp_div_less)
  show "k mod ncols a < ncols a" using c by simp
  show "m \<le> cell a r c" if "r < nrows a" "c < ncols a" for r c
  proof -
    have "(r, c) \<in> set (List.product [0..<nrows a] [0..<ncols a])" using that by simp
    then have "cell a r c \<in> set (flatten a)"
      unfolding flatten_def by force
    then show ?thesis unfolding m by (rule min_list_le)
  qed
qed

lemma below_decreases:
  assumes "amin a = Inr m" "\<not> Finite maxd < m" "argmin a = Inr k"
  shows "below maxd (set_col (k mod ncols a) Inf (set_row (k div ncols a) Inf a)) < below maxd a"
proof -
  let ?a' = "set_col (k mod ncols a) Inf (set_row (k div ncols a) Inf a)"
  let ?P = "\<lambda>x. x \<le> Finite maxd"
  let ?N = "nrows a * ncols a"
  note f = argmin_facts [OF assms(1) assms(3)]
  have nth': "flatten ?a' ! n =
      (if n div ncols a = k div ncols a \<or> n mod ncols a = k mod ncols a then Inf
       else flatten a ! n)" if "n < ?N" for n
    using that flatten_nth [of n ?a'] flatten_nth [of n a] by simp
  have sub: "{n. n < ?N \<and> ?P (flatten ?a' ! n)} \<subseteq> {n. n < ?N \<and> ?P (flatten a ! n)}"
    using nth' by (auto split: if_splits)
  have kin: "k \<in> {n. n < ?N \<and> ?P (flatten a ! n)}"
    using f(1) f(2) assms(2) by (simp add: flatten_nth)
  have kout: "k \<notin> {n. n < ?N \<and> ?P (flatten ?a' ! n)}"
    using f(1) nth' by simp
  have "{n. n < ?N \<and> ?P (flatten ?a' ! n)} \<subset> {n. n < ?N \<and> ?P (flatten a ! n)}"
    using sub kin kout by blast
  then have "card {n. n < ?N \<and> ?P (flatten ?a' ! n)} < card {n. n < ?N \<and> ?P (flatten a ! n)}"
    by (intro psubset_card_mono) auto
  then show ?thesis
    by (simp add: below_def length_filter_conv_card)
qed

subsection \<open>CentroidTracker.\_greedy\_match\<close>

text \<open>
  The \<open>while True\<close> loop of \<open>_greedy_match\<close>, on the copy of the matrix.
  \<open>max_distance\<close> is a finite float (50 wherever a tracker is constructed).
\<close>

function greedy_loop :: "real \<Rightarrow> ndarray \<Rightarrow> (nat \<times> nat) list \<Rightarrow> error + (nat \<times> nat) list" where
  "greedy_loop max_distance distances matches =
     (case amin distances of
        Inl e \<Rightarrow> Inl e
      | Inr min_val \<Rightarrow>
          if min_val > Finite max_distance then Inr matches
          else
            (case argmin distances of
               Inl e \<Rightarrow> Inl e
             | Inr k \<Rightarrow>
                 let ij = unravel_index k (shape distances)
                 in greedy_loop max_distance
                      (set_col (snd ij) Inf (set_row (fst ij) Inf distances))
                      (matches @ [ij])))"
  by pat_completeness auto
termination
  by (relation "measure (\<lambda>(max_distance, distances, matches). below max_distance distances)")
     (auto simp: unravel_index_def shape_def below_decreases)

declare greedy_loop.simps [simp del]


lemma greedy_loop_unfold:
  "flatten d \<noteq> [] \<Longrightarrow>
   greedy_loop maxd d acc =
     (if Finite maxd < min_list (flatten d) then Inr acc
      else greedy_loop maxd
             (set_col (first_index (flatten d) (min_list (flatten d)) mod ncols d) Inf
               (set_row (first_index (flatten d) (min_list (flatten d)) div ncols d) Inf d))
             (acc @ [(first_index (flatten d) (min_list (flatten d)) div ncols d,
                      first_index (flatten d) (min_list (flatten d)) mod ncols d)]))"
  by (subst greedy_loop.simps)
     (simp add: amin_def argmin_def unravel_index_def shape_def Let_def)

definition greedy_match :: "ndarray \<Rightarrow> real \<Rightarrow> error + (nat \<times> nat) list" where
  "greedy_match distances max_distance = greedy_loop max_distance distances []"

text \<open>
  What the matcher is to deliver, relative to the matrix it starts from: every
  pair is an entry of the matrix not above the threshold; no row and no column is
  used twice; the pair at position \<open>k\<close> is a smallest entry among those whose row
  and column the earlier pairs have not used; and at the end every entry whose row
  and column are both unused is above the threshold.
\<close>

definition greedy_ok :: "real \<Rightarrow> ndarray \<Rightarrow> (nat \<times> nat) list \<Rightarrow> bool" where
  "greedy_ok maxd d ms \<longleftrightarrow>
     (\<forall>(i, j) \<in> set ms. i < nrows d \<and> j < ncols d \<and> cell d i j \<le> Finite maxd)
   \<and> distinct (map fst ms) \<and> distinct (map snd ms)
   \<and> (\<forall>k < length ms. \<forall>r < nrows d. \<forall>c < ncols d.
         r \<notin> fst ` set (take k ms) \<longrightarrow> c \<notin> snd ` set (take k ms) \<longrightarrow>
         cell d (fst (ms ! k)) (snd (ms ! k)) \<le> cell d r c)
   \<and> (\<forall>r < nrows d. \<forall>c < ncols d.
         r \<notin> fst ` set ms \<longrightarrow> c \<notin> snd ` set ms \<longrightarrow> Finite maxd < cell d r c)"

lemma greedy_ok_Nil:
  assumes "\<And>r c. r < nrows d \<Longrightarrow> c < ncols d \<Longrightarrow> Finite maxd < cell d r c"
  shows "greedy_ok maxd d []"
  using assms by (simp add: greedy_ok_def)

lemma greedy_ok_Cons:
  assumes ok: "greedy_ok maxd (set_col j Inf (set_row i Inf d)) ms"
    and i: "i < nrows d" and j: "j < ncols d"
    and le: "cell d i j \<le> Finite maxd"
    and least: "\<And>r c. r < nrows d \<Longrightarrow> c < ncols d \<Longrightarrow> cell d i j \<le> cell d r c"
  shows "greedy_ok maxd d ((i, j) # ms)"
proof -
  let ?d' = "set_col j Inf (set_row i Inf d)"
  have mem: "a < nrows d \<and> b < ncols d \<and> a \<noteq> i \<and> b \<noteq> j \<and> cell d a b \<le> Finite maxd"
    if "(a, b) \<in> set ms" for a b
  proof -
    from ok that have *: "a < nrows d" "b < ncols d" "cell ?d' a b \<le> Finite maxd"
      by (auto simp: greedy_ok_def)
    from *(3) have "a \<noteq> i \<and> b \<noteq> j" by (auto split: if_splits)
    with * show ?thesis by simp
  qed
  have fresh: "i \<notin> fst ` set ms" "j \<notin> snd ` set ms"
    using mem by force+
  have g1: "\<forall>(a, b) \<in> set ((i, j) # ms). a < nrows d \<and> b < ncols d \<and> cell d a b \<le> Finite maxd"
    using mem i j le by auto
  have g2: "distinct (map fst ((i, j) # ms))" "distinct (map snd ((i, j) # ms))"
    using ok fresh by (auto simp: greedy_ok_def)
  have g3: "cell d (fst (((i, j) # ms) ! k)) (snd (((i, j) # ms) ! k)) \<le> cell d r c"
    if "k < length ((i, j) # ms)" "r < nrows d" "c < ncols d"
      "r \<notin> fst ` set (take k ((i, j) # ms))" "c \<notin> snd ` set (take k ((i, j) # ms))"
    for k r c
  proof (cases k)
    case 0
    then show ?thesis using least that by simp
  next
    case (Suc k')
    with that have k': "k' < length ms" and r: "r \<noteq> i" "r \<notin> fst ` set (take k' ms)"
      and c: "c \<noteq> j" "c \<notin> snd ` set (take k' ms)"
      by auto
    obtain a b where ab: "ms ! k' = (a, b)" by (cases "ms ! k'")
    then have "(a, b) \<in> set ms" using k' by (metis nth_mem)
    then have ne: "a \<noteq> i" "b \<noteq> j" using mem by auto
    from ok k' that(2,3) r(2) c(2)
    have "cell ?d' (fst (ms ! k')) (snd (ms ! k')) \<le> cell ?d' r c"
      unfolding greedy_ok_def by simp
    then show ?thesis using ne r(1) c(1) by (simp add: Suc ab)
  qed
  have g4: "Finite maxd < cell d r c"
    if "r < nrows d" "c < ncols d" "r \<notin> fst ` set ((i, j) # ms)" "c \<notin> snd ` set ((i, j) # ms)"
    for r c
  proof -
    from that have "r \<noteq> i" "c \<noteq> j" "r \<notin> fst ` set ms" "c \<notin> snd ` set ms" by auto
    moreover from ok that(1,2) this(3,4) have "Finite maxd < cell ?d' r c"
      unfolding greedy_ok_def by simp
    ultimately show ?thesis by simp
  qed
  show ?thesis
    unfolding greedy_ok_def using g1 g2 g3 g4 by blast
qed

lemma greedy_loop_ok:
  assumes "0 < nrows d" "0 < ncols d"
  shows "\<exists>ms. greedy_loop maxd d acc = Inr (acc @ ms) \<and> greedy_ok maxd d ms"
  using assms
proof (induction maxd d acc rule: greedy_loop.induct)
  case (1 maxd d acc)
  from "1.prems" have ne: "flatten d \<noteq> []" by (simp add: flatten_empty_iff)
  then obtain m k where m: "amin d = Inr m" and k: "argmin d = Inr k"
    by (auto simp: amin_def argmin_def)
  note f = argmin_facts [OF m k]
  show ?case
  proof (cases "Finite maxd < m")
    case True
    then have "greedy_loop maxd d acc = Inr acc"
      by (subst greedy_loop.simps) (simp add: m)
    moreover have "greedy_ok maxd d []"
      by (rule greedy_ok_Nil) (use True f(5) in \<open>meson less_le_trans\<close>)
    ultimately show ?thesis by simp
  next
    case False
    let ?i = "k div ncols d" and ?j = "k mod ncols d"
    let ?d' = "set_col ?j Inf (set_row ?i Inf d)"
    have step: "greedy_loop maxd d acc = greedy_loop maxd ?d' (acc @ [(?i, ?j)])"
      by (subst greedy_loop.simps) (simp add: m k False unravel_index_def shape_def Let_def)
    have "\<exists>ms. greedy_loop maxd ?d' (acc @ [(?i, ?j)]) = Inr ((acc @ [(?i, ?j)]) @ ms)
             \<and> greedy_ok maxd ?d' ms"
      using "1.IH" [OF m False k, of "unravel_index k (shape d)"] "1.prems"
      by (simp add: unravel_index_def shape_def)
    then obtain ms where ms: "greedy_loop maxd ?d' (acc @ [(?i, ?j)]) = Inr (acc @ (?i, ?j) # ms)"
      and ok: "greedy_ok maxd ?d' ms" by auto
    have le: "cell d ?i ?j \<le> Finite maxd" using False f(2) by simp
    have "greedy_ok maxd d ((?i, ?j) # ms)"
      using ok f(3) f(4) le
      by (rule greedy_ok_Cons) (simp add: f(2) f(5))
    then show ?thesis using step ms by auto
  qed
qed

subsection \<open>CentroidTracker.\_compute\_distances\<close>

text \<open>
  The matrix of Euclidean distances between two lists of centroids;
  \<open>array\<close> builds a matrix from rows of finite values (\<open>np.array\<close>), for
  examples.
\<close>

type_synonym centroid = "int \<times> int"

definition compute_distances :: "centroid list \<Rightarrow> centroid list \<Rightarrow> ndarray" where
  "compute_distances centroids1 centroids2 =
     \<lparr>nrows = length centroids1, ncols = length centroids2,
      cell = (\<lambda>i j. Finite (sqrt (real_of_int
                ((fst (centroids1 ! i) - fst (centroids2 ! j))\<^sup>2
                 + (snd (centroids1 ! i) - snd (centroids2 ! j))\<^sup>2))))\<rparr>"


lemma less_sqrt_iff: "0 \<le> c \<Longrightarrow> c < sqrt x \<longleftrightarrow> c\<^sup>2 < x"
proof -
  assume c: "0 \<le> c"
  then have "sqrt (c\<^sup>2) = c" by simp
  then have "c < sqrt x \<longleftrightarrow> sqrt (c\<^sup>2) < sqrt x" by simp
  then show ?thesis by (simp only: real_sqrt_less_iff)
qed

lemma greedy_match_single:
  "0 \<le> maxd \<Longrightarrow>
   greedy_match (compute_distances [a] [b]) maxd =
     (if maxd\<^sup>2 < real_of_int ((fst a - fst b)\<^sup>2 + (snd a - snd b)\<^sup>2)
      then Inr [] else Inr [(0, 0)])"
  by (simp add: greedy_match_def greedy_loop_unfold flatten_def compute_distances_def
      first_index_def set_row_def set_col_def less_sqrt_iff)




subsection \<open>TrackedPerson\<close>

text \<open>
  Local variables named \<open>track_id\<close> in the source are \<open>tid\<close> here.
  The strings \<open>'above'\<close>/\<open>'below'\<close> and \<open>'entry'\<close>/\<open>'exit'\<close>, the only values the
  program stores in \<open>track_states\<close> and in \<open>direction\<close>, are two datatypes.
\<close>

datatype side = Above | Below

datatype direction = Entry | Exit

record TrackedPerson =
  tp_track_id :: int
  centroids :: "centroid list"
  last_seen :: real
  crossed_line :: bool
  direction :: "direction option"

text \<open>\<open>deque.append\<close> on a deque with \<open>maxlen\<close>: a full deque drops its oldest element.\<close>

definition deque_append :: "nat \<Rightarrow> 'a list \<Rightarrow> 'a \<Rightarrow> 'a list" where
  "deque_append maxlen q x = (let q' = q @ [x] in if length q' > maxlen then tl q' else q')"

definition update_position :: "real \<Rightarrow> centroid \<Rightarrow> TrackedPerson \<Rightarrow> TrackedPerson" where
  "update_position now centroid p =
     (let p1 = p\<lparr>centroids := deque_append 30 (centroids p) centroid, last_seen := now\<rparr>
      in if length (centroids p1) > 30 then p1\<lparr>centroids := tl (centroids p1)\<rparr> else p1)"

subsection \<open>CentroidTracker\<close>

record CentroidTracker =
  next_id :: int
  tracks :: "(int \<times> TrackedPerson) list"
  max_disappeared :: int
  max_distance :: real

definition CentroidTracker_init :: "int \<Rightarrow> real \<Rightarrow> CentroidTracker" where
  "CentroidTracker_init max_disappeared' max_distance' =
     \<lparr>next_id = 0, tracks = [], max_disappeared = max_disappeared',
      max_distance = max_distance'\<rparr>"

definition register :: "real \<Rightarrow> centroid \<Rightarrow> CentroidTracker \<Rightarrow> CentroidTracker" where
  "register now centroid ct =
     (let tid = next_id ct
      in ct\<lparr>tracks := AList.update tid
                 \<lparr>tp_track_id = tid, centroids = [centroid], last_seen = now,
                  crossed_line = False, direction = None\<rparr> (tracks ct),
             next_id := next_id ct + 1\<rparr>)"

definition deregister :: "int \<Rightarrow> CentroidTracker \<Rightarrow> CentroidTracker" where
  "deregister tid ct =
     (if map_of (tracks ct) tid \<noteq> None
      then ct\<lparr>tracks := AList.delete tid (tracks ct)\<rparr> else ct)"

text \<open>\<open>(current_time - track.last_seen) > (self.max_disappeared / 30.0)\<close>\<close>

definition disappeared :: "real \<Rightarrow> CentroidTracker \<Rightarrow> TrackedPerson \<Rightarrow> bool" where
  "disappeared current_time ct track \<longleftrightarrow>
     current_time - last_seen track > real_of_int (max_disappeared ct) / 30"

text \<open>
  \<open>[self.tracks[track_id].centroids[-1] for track_id in track_ids]\<close>, over the tracks in the
  order of their keys; \<open>[-1]\<close> on an empty deque raises \<open>IndexError\<close>.
\<close>

fun last_centroids :: "TrackedPerson list \<Rightarrow> error + centroid list" where
  "last_centroids [] = Inr []"
| "last_centroids (p # ps) =
     (if centroids p = [] then Inl IndexError
      else (case last_centroids ps of
              Inl e \<Rightarrow> Inl e
            | Inr cs \<Rightarrow> Inr (last (centroids p) # cs)))"

text \<open>
  \<open>update(detections)\<close>; \<open>now\<close> is the reading of \<open>time.time()\<close> during the call.
  \<open>track_ids\<close> are the keys of \<open>tracks\<close>, so \<open>self.tracks[track_id]\<close> finds its
  entry; the indices in \<open>matched_pairs\<close> are positions of the distance matrix, whose
  rows are \<open>track_ids\<close> and whose columns are \<open>detections\<close>.
\<close>

definition CentroidTracker_update ::
  "real \<Rightarrow> centroid list \<Rightarrow> CentroidTracker \<Rightarrow> error + CentroidTracker" where
  "CentroidTracker_update now detections ct =
     (if length detections = 0 then
        let disappeared_ids =
              map fst (filter (\<lambda>(tid, track). disappeared now ct track) (tracks ct))
        in Inr (fold deregister disappeared_ids ct)
      else if length (tracks ct) = 0 then Inr (fold (register now) detections ct)
      else
        let track_ids = map fst (tracks ct) in
        case last_centroids (map snd (tracks ct)) of
          Inl e \<Rightarrow> Inl e
        | Inr track_centroids \<Rightarrow>
            let distances = compute_distances track_centroids detections in
            case greedy_match distances (max_distance ct) of
              Inl e \<Rightarrow> Inl e
            | Inr matched_pairs \<Rightarrow>
                let ct1 = fold (\<lambda>(track_idx, det_idx) c.
                                 c\<lparr>tracks := AList.map_entry (track_ids ! track_idx)
                                     (update_position now (detections ! det_idx)) (tracks c)\<rparr>)
                            matched_pairs ct;
                    matched_track_ids = map (\<lambda>(track_idx, det_idx). track_ids ! track_idx) matched_pairs;
                    matched_detection_ids = map snd matched_pairs;
                    ct2 = fold (\<lambda>(det_idx, centroid) c.
                                 if det_idx \<notin> set matched_detection_ids
                                 then register now centroid c else c)
                            (enumerate 0 detections) ct1;
                    disappeared_ids =
                      filter (\<lambda>tid. tid \<notin> set matched_track_ids
                                \<and> (case map_of (tracks ct2) tid of
                                     Some track \<Rightarrow> disappeared now ct2 track
                                   | None \<Rightarrow> False))
                        track_ids
                in Inr (fold deregister disappeared_ids ct2))"

subsection \<open>EntryExitCounter\<close>

text \<open>
  The counter with \<open>dwell_tracker=None\<close>, the default: the notification of a
  dwell tracker, which follows the counting and the marking of the track and
  changes nothing in the counter, is not part of the model.  The log line written
  for a crossing (track id, direction, occupancy) is the crossing event; \<open>update\<close>
  returns the events of the call with its result.
\<close>

record EntryExitCounter =
  counting_line_y :: int
  frame_height :: int
  entry_direction :: string
  tracker :: CentroidTracker
  total_entries :: int
  total_exits :: int
  current_occupancy :: int
  track_states :: "(int \<times> side) list"

type_synonym crossing = "int \<times> direction \<times> int"

definition EntryExitCounter_init :: "int \<Rightarrow> int \<Rightarrow> string \<Rightarrow> EntryExitCounter" where
  "EntryExitCounter_init counting_line_y' frame_height' entry_direction' =
     \<lparr>counting_line_y = counting_line_y', frame_height = frame_height',
      entry_direction = entry_direction', tracker = CentroidTracker_init 30 50,
      total_entries = 0, total_exits = 0, current_occupancy = 0, track_states = []\<rparr>"

text \<open>The state of the loop over the tracks: the counter and the locals of \<open>update\<close>.\<close>

record update_state =
  counter :: EntryExitCounter
  new_entries :: int
  new_exits :: int
  crossings :: "crossing list"

text \<open>
  The body of \<open>if previous_side != current_side and not track.crossed_line\<close>, once
  the direction is determined: count, mark the track as crossed, log.
\<close>

definition count_crossing :: "int \<Rightarrow> direction \<Rightarrow> update_state \<Rightarrow> update_state" where
  "count_crossing tid d st =
     (let c = counter st;
          c1 = (case d of
                  Entry \<Rightarrow> c\<lparr>total_entries := total_entries c + 1,
                              current_occupancy := current_occupancy c + 1\<rparr>
                | Exit \<Rightarrow> c\<lparr>total_exits := total_exits c + 1,
                             current_occupancy := current_occupancy c - 1\<rparr>);
          c2 = c1\<lparr>tracker := (tracker c1)\<lparr>tracks :=
                   AList.map_entry tid
                     (\<lambda>p. p\<lparr>crossed_line := True, direction := Some d\<rparr>)
                     (tracks (tracker c1))\<rparr>\<rparr>
      in st\<lparr>counter := c2,
             new_entries := (case d of Entry \<Rightarrow> new_entries st + 1 | Exit \<Rightarrow> new_entries st),
             new_exits := (case d of Entry \<Rightarrow> new_exits st | Exit \<Rightarrow> new_exits st + 1),
             crossings := crossings st @ [(tid, d, current_occupancy c2)]\<rparr>)"

definition set_track_state :: "int \<Rightarrow> side \<Rightarrow> update_state \<Rightarrow> update_state" where
  "set_track_state tid s st =
     st\<lparr>counter := (counter st)\<lparr>track_states :=
           AList.update tid s (track_states (counter st))\<rparr>\<rparr>"

text \<open>
  One iteration of \<open>for track_id, track in tracks.items()\<close>.  \<open>previous_y\<close> is
  computed by the source and not used.  When the two sides differ and the first
  test (above to below) fails, the \<open>elif\<close> test (below to above) holds, since a
  side is one of two values; it is the \<open>else\<close> here.
\<close>

definition check_track :: "int \<Rightarrow> TrackedPerson \<Rightarrow> update_state \<Rightarrow> update_state" where
  "check_track tid track st =
     (let c = counter st in
      if length (centroids track) < 2 then st
      else
        let current_y = snd (last (centroids track));
            current_side = (if current_y < counting_line_y c then Above else Below)
        in case map_of (track_states c) tid of
             None \<Rightarrow> set_track_state tid current_side st
           | Some previous_side \<Rightarrow>
               set_track_state tid current_side
                 (if previous_side \<noteq> current_side \<and> \<not> crossed_line track then
                    (if previous_side = Above \<and> current_side = Below then
                       (if entry_direction c = ''down''
                        then count_crossing tid Entry st
                        else count_crossing tid Exit st)
                     else
                       (if entry_direction c = ''down''
                        then count_crossing tid Exit st
                        else count_crossing tid Entry st))
                  else st))"

definition EntryExitCounter_update ::
  "real \<Rightarrow> centroid list \<Rightarrow> EntryExitCounter \<Rightarrow> error + (EntryExitCounter \<times> (int \<times> int) \<times> crossing list)" where
  "EntryExitCounter_update now detections c =
     (case CentroidTracker_update now detections (tracker c) of
        Inl e \<Rightarrow> Inl e
      | Inr ct \<Rightarrow>
          let st = fold (\<lambda>(tid, track). check_track tid track) (tracks ct)
                     \<lparr>counter = c\<lparr>tracker := ct\<rparr>, new_entries = 0, new_exits = 0,
                      crossings = []\<rparr>;
              c1 = counter st;
              active_ids = set (map fst (tracks (tracker c1)));
              c2 = c1\<lparr>track_states :=
                      filter (\<lambda>(tid, s). tid \<in> active_ids) (track_states c1)\<rparr>
          in Inr (c2, (new_entries st, new_exits st), crossings st))"

definition get_occupancy :: "EntryExitCounter \<Rightarrow> int" where
  "get_occupancy c = max 0 (current_occupancy c)"

definition get_stats :: "EntryExitCounter \<Rightarrow> (string \<rightharpoonup> int)" where
  "get_stats c =
     [''total_entries'' \<mapsto> total_entries c,
      ''total_exits'' \<mapsto> total_exits c,
      ''current_occupancy'' \<mapsto> get_occupancy c,
      ''active_tracks'' \<mapsto> int (length (tracks (tracker c)))]"

definition reset :: "EntryExitCounter \<Rightarrow> EntryExitCounter" where
  "reset c = c\<lparr>total_entries := 0, total_exits := 0, current_occupancy := 0,
               tracker := CentroidTracker_init 30 50, track_states := []\<rparr>"

text \<open>
  A sequence of calls on one counter.  \<open>run\<close> returns the counter after the last
  call and the crossing events of all the calls, or the exception that ended it.
\<close>

datatype call = Update real "centroid list" | Reset

fun run :: "EntryExitCounter \<Rightarrow> call list \<Rightarrow> error + (EntryExitCounter \<times> crossing list)" where
  "run c [] = Inr (c, [])"
| "run c (Reset # calls) = run (reset c) calls"
| "run c (Update now detections # calls) =
     (case EntryExitCounter_update now detections c of
        Inl e \<Rightarrow> Inl e
      | Inr (c', counts, evs) \<Rightarrow>
          (case run c' calls of
             Inl e \<Rightarrow> Inl e
           | Inr (c'', evs') \<Rightarrow> Inr (c'', evs @ evs')))"

subsection \<open>Invariants of the tracker and the counter\<close>

text \<open>
  Notions for the proofs.  A tracker is well formed when its keys are distinct,
  every key is below \<open>next_id\<close> and every track has a position.  \<open>tracker_step\<close>
  relates a tracker to a later one: identities are not reused and a crossed track
  stays crossed.  \<open>marks_kept\<close> is the same with the keys unchanged
  (the loop of the counter).  \<open>may_cross\<close> tells whether an identity can still
  produce a crossing event.  \<open>occupancy_inv\<close> is the relation between the three
  counters.  \<open>updates\<close> turns frames into \<open>update\<close> calls, and
  \<open>crossings_of\<close> selects the events of one identity.
\<close>

definition wf_tracker :: "CentroidTracker \<Rightarrow> bool" where
  "wf_tracker ct \<longleftrightarrow>
     distinct (map fst (tracks ct))
   \<and> (\<forall>(tid, p) \<in> set (tracks ct). tid < next_id ct \<and> centroids p \<noteq> [])"

definition tracker_step :: "CentroidTracker \<Rightarrow> CentroidTracker \<Rightarrow> bool" where
  "tracker_step ct ct' \<longleftrightarrow>
     next_id ct \<le> next_id ct'
   \<and> (\<forall>tid p'. map_of (tracks ct') tid = Some p' \<longrightarrow>
         (\<exists>p. map_of (tracks ct) tid = Some p \<and> (crossed_line p \<longrightarrow> crossed_line p'))
       \<or> next_id ct \<le> tid)"

definition marks_kept :: "CentroidTracker \<Rightarrow> CentroidTracker \<Rightarrow> bool" where
  "marks_kept a b \<longleftrightarrow>
     next_id b = next_id a \<and> map fst (tracks b) = map fst (tracks a)
   \<and> (\<forall>t p. map_of (tracks a) t = Some p \<longrightarrow>
         (\<exists>p'. map_of (tracks b) t = Some p' \<and> (crossed_line p \<longrightarrow> crossed_line p')))"

definition mark_crossed :: "int \<Rightarrow> direction \<Rightarrow> CentroidTracker \<Rightarrow> CentroidTracker" where
  "mark_crossed tid d ct =
     ct\<lparr>tracks := AList.map_entry tid (\<lambda>p. p\<lparr>crossed_line := True, direction := Some d\<rparr>)
                     (tracks ct)\<rparr>"

definition occupancy_inv :: "EntryExitCounter \<Rightarrow> bool" where
  "occupancy_inv c \<longleftrightarrow> current_occupancy c = total_entries c - total_exits c"

definition loop_events :: "(int \<times> TrackedPerson) list \<Rightarrow> CentroidTracker \<Rightarrow> crossing list \<Rightarrow> bool" where
  "loop_events L T' evs \<longleftrightarrow>
     distinct (map fst evs)
   \<and> (\<forall>e \<in> set evs.
         (\<exists>track. (fst e, track) \<in> set L \<and> \<not> crossed_line track)
       \<and> (\<exists>p'. map_of (tracks T') (fst e) = Some p' \<and> crossed_line p'))"

definition may_cross :: "CentroidTracker \<Rightarrow> int \<Rightarrow> bool" where
  "may_cross ct tid \<longleftrightarrow>
     (\<exists>p. map_of (tracks ct) tid = Some p \<and> \<not> crossed_line p) \<or> next_id ct \<le> tid"

definition updates :: "(real \<times> centroid list) list \<Rightarrow> call list" where
  "updates frames = map (\<lambda>(now, detections). Update now detections) frames"

definition crossings_of :: "int \<Rightarrow> crossing list \<Rightarrow> crossing list" where
  "crossings_of tid evs = filter (\<lambda>e. fst e = tid) evs"

subsection \<open>Properties of the counter\<close>

lemma fold_invariant:
  assumes "P s" and "\<And>x s. x \<in> set xs \<Longrightarrow> P s \<Longrightarrow> P (f x s)"
  shows "P (fold f xs s)"
  using assms by (induction xs arbitrary: s) auto

lemma tracker_step_refl: "tracker_step ct ct"
  by (simp add: tracker_step_def)

lemma tracker_step_trans:
  assumes ab: "tracker_step a b" and bc: "tracker_step b c"
  shows "tracker_step a c"
proof -
  have n: "next_id a \<le> next_id b" "next_id b \<le> next_id c"
    using ab bc by (simp_all add: tracker_step_def)
  have "(\<exists>p. map_of (tracks a) tid = Some p \<and> (crossed_line p \<longrightarrow> crossed_line p'))
        \<or> next_id a \<le> tid" if c: "map_of (tracks c) tid = Some p'" for tid p'
  proof -
    from bc c consider q where "map_of (tracks b) tid = Some q" "crossed_line q \<longrightarrow> crossed_line p'"
      | "next_id b \<le> tid"
      unfolding tracker_step_def by blast
    then show ?thesis
    proof cases
      case 1
      from ab 1(1) consider p where "map_of (tracks a) tid = Some p" "crossed_line p \<longrightarrow> crossed_line q"
        | "next_id a \<le> tid"
        unfolding tracker_step_def by blast
      then show ?thesis using 1(2) by cases auto
    next
      case 2
      then show ?thesis using n by simp
    qed
  qed
  then show ?thesis using n unfolding tracker_step_def by simp
qed

lemma set_alist_update:
  "x \<in> set (AList.update k v al) \<Longrightarrow> x = (k, v) \<or> x \<in> set al"
  by (induction al) (auto split: if_splits)

lemma set_alist_delete: "x \<in> set (AList.delete k al) \<Longrightarrow> x \<in> set al"
  by (auto simp: AList.delete_eq)

lemma set_alist_map_entry:
  "x \<in> set (AList.map_entry k f al) \<Longrightarrow>
   x \<in> set al \<or> (\<exists>v. (k, v) \<in> set al \<and> x = (k, f v))"
  by (induction al) (auto split: if_splits)

lemma centroids_update_position: "centroids (update_position now c p) \<noteq> []"
proof -
  have "tl xs \<noteq> []" if "30 < length xs" for xs :: "centroid list"
    using that by (cases xs; cases "tl xs") auto
  then show ?thesis
    by (auto simp: update_position_def deque_append_def Let_def)
qed

lemma crossed_update_position [simp]:
  "crossed_line (update_position now c p) = crossed_line p"
  by (simp add: update_position_def Let_def)

lemma wf_register: "wf_tracker ct \<Longrightarrow> wf_tracker (register now c ct)"
  unfolding wf_tracker_def register_def
  by (auto simp: Let_def distinct_update dest!: set_alist_update)

lemma step_register: "tracker_step ct (register now c ct)"
  unfolding tracker_step_def register_def
  by (auto simp: Let_def update_conv' split: if_splits)

lemma wf_deregister: "wf_tracker ct \<Longrightarrow> wf_tracker (deregister tid ct)"
  unfolding wf_tracker_def deregister_def
  by (auto simp: distinct_delete dest!: set_alist_delete)

lemma step_deregister: "tracker_step ct (deregister tid ct)"
  unfolding tracker_step_def deregister_def
  by (auto simp: delete_conv' split: if_splits)

lemma wf_move:
  "wf_tracker ct \<Longrightarrow>
   wf_tracker (ct\<lparr>tracks := AList.map_entry k (update_position now c) (tracks ct)\<rparr>)"
  unfolding wf_tracker_def
  by (auto simp: distinct_map_entry centroids_update_position dest!: set_alist_map_entry)

lemma step_move:
  "tracker_step ct (ct\<lparr>tracks := AList.map_entry k (update_position now c) (tracks ct)\<rparr>)"
  unfolding tracker_step_def
  by (auto simp: map_of_map_entry split: if_splits option.splits)

lemma last_centroids_ok:
  "\<forall>p \<in> set ps. centroids p \<noteq> [] \<Longrightarrow>
   \<exists>cs. last_centroids ps = Inr cs \<and> length cs = length ps"
  by (induction ps) auto

lemma wf_values_nonempty:
  "wf_tracker ct \<Longrightarrow> \<forall>p \<in> set (map snd (tracks ct)). centroids p \<noteq> []"
  unfolding wf_tracker_def by auto

lemma fold_tracker_ops:
  assumes "\<And>x s. wf_tracker s \<Longrightarrow> wf_tracker (f x s)"
    and "\<And>x s. tracker_step s (f x s)"
    and "wf_tracker s0" and "tracker_step ct s0"
  shows "wf_tracker (fold f xs s0) \<and> tracker_step ct (fold f xs s0)"
proof (rule fold_invariant [where P = "\<lambda>s. wf_tracker s \<and> tracker_step ct s"])
  show "wf_tracker s0 \<and> tracker_step ct s0" using assms(3,4) by simp
next
  fix x s assume "wf_tracker s \<and> tracker_step ct s"
  then show "wf_tracker (f x s) \<and> tracker_step ct (f x s)"
    using assms(1,2) tracker_step_trans by blast
qed

lemma CentroidTracker_update_ok:
  assumes wf: "wf_tracker ct"
  shows "\<exists>ct'. CentroidTracker_update now detections ct = Inr ct'
           \<and> wf_tracker ct' \<and> tracker_step ct ct'"
proof -
  note start = wf tracker_step_refl [of ct]
  consider (none) "detections = []"
    | (fresh) "detections \<noteq> []" "tracks ct = []"
    | (match) "detections \<noteq> []" "tracks ct \<noteq> []"
    by blast
  then show ?thesis
  proof cases
    case none
    then show ?thesis
      using fold_tracker_ops [of deregister, OF wf_deregister step_deregister start]
      by (simp add: CentroidTracker_update_def)
  next
    case fresh
    then show ?thesis
      using fold_tracker_ops [of "register now", OF wf_register step_register start]
      by (simp add: CentroidTracker_update_def)
  next
    case match
    let ?ids = "map fst (tracks ct)"
    from last_centroids_ok [OF wf_values_nonempty [OF wf]]
    obtain cs where cs: "last_centroids (map snd (tracks ct)) = Inr cs"
      and len: "length cs = length (tracks ct)" by auto
    have "0 < nrows (compute_distances cs detections)"
      "0 < ncols (compute_distances cs detections)"
      using match len by (simp_all add: compute_distances_def)
    from greedy_loop_ok [OF this, of "max_distance ct" "[]"]
    obtain ms where ms: "greedy_match (compute_distances cs detections) (max_distance ct) = Inr ms"
      unfolding greedy_match_def by auto
    let ?move = "\<lambda>(track_idx, det_idx) c.
        c\<lparr>tracks := AList.map_entry (?ids ! track_idx)
              (update_position now (detections ! det_idx)) (tracks c)\<rparr>"
    let ?reg = "\<lambda>(det_idx, centroid) c.
        if det_idx \<notin> set (map snd ms) then register now centroid c else c"
    let ?ct1 = "fold ?move ms ct"
    let ?ct2 = "fold ?reg (enumerate 0 detections) ?ct1"
    have 1: "wf_tracker ?ct1 \<and> tracker_step ct ?ct1"
      by (rule fold_tracker_ops [OF _ _ start]) (auto simp: wf_move step_move)
    have 2: "wf_tracker ?ct2 \<and> tracker_step ct ?ct2"
      using 1
      by (intro fold_tracker_ops)
         (auto simp: wf_register step_register tracker_step_refl)
    have 3: "wf_tracker (fold deregister xs ?ct2) \<and> tracker_step ct (fold deregister xs ?ct2)"
      for xs
      using 2 by (intro fold_tracker_ops) (auto simp: wf_deregister step_deregister)
    show ?thesis
      using match cs ms 3
      by (simp add: CentroidTracker_update_def Let_def)
  qed
qed

lemma marks_kept_refl: "marks_kept a a"
  by (simp add: marks_kept_def)

lemma marks_kept_trans: "marks_kept a b \<Longrightarrow> marks_kept b c \<Longrightarrow> marks_kept a c"
  unfolding marks_kept_def by (metis (no_types, lifting))

lemma map_fst_map_entry: "map fst (AList.map_entry k f al) = map fst al"
  by (induction al) auto

lemma marks_kept_mark: "marks_kept ct (mark_crossed tid d ct)"
  unfolding marks_kept_def mark_crossed_def
  by (auto simp: map_fst_map_entry map_of_map_entry)

lemma wf_mark: "wf_tracker ct \<Longrightarrow> wf_tracker (mark_crossed tid d ct)"
  unfolding wf_tracker_def mark_crossed_def
  by (auto simp: distinct_map_entry dest!: set_alist_map_entry)

lemma step_mark: "tracker_step ct (mark_crossed tid d ct)"
  unfolding tracker_step_def mark_crossed_def
  by (auto simp: map_of_map_entry split: option.splits if_splits)

lemma marked_after_mark:
  "map_of (tracks ct) tid = Some p \<Longrightarrow>
   \<exists>p'. map_of (tracks (mark_crossed tid d ct)) tid = Some p' \<and> crossed_line p'"
  by (simp add: mark_crossed_def map_of_map_entry)

lemma tracker_set_track_state [simp]:
  "tracker (counter (set_track_state tid s st)) = tracker (counter st)"
  "crossings (set_track_state tid s st) = crossings st"
  "total_entries (counter (set_track_state tid s st)) = total_entries (counter st)"
  "total_exits (counter (set_track_state tid s st)) = total_exits (counter st)"
  "current_occupancy (counter (set_track_state tid s st)) = current_occupancy (counter st)"
  by (simp_all add: set_track_state_def)

lemma count_crossing_facts:
  "tracker (counter (count_crossing tid d st)) = mark_crossed tid d (tracker (counter st))"
  "\<exists>occ. crossings (count_crossing tid d st) = crossings st @ [(tid, d, occ)]"
  "current_occupancy (counter st) = total_entries (counter st) - total_exits (counter st) \<Longrightarrow>
   current_occupancy (counter (count_crossing tid d st)) =
     total_entries (counter (count_crossing tid d st)) - total_exits (counter (count_crossing tid d st))"
  by (cases d; simp add: count_crossing_def mark_crossed_def Let_def)+

lemma check_track_cases:
  "check_track tid track st = st
   \<or> (\<exists>s. check_track tid track st = set_track_state tid s st)
   \<or> (\<not> crossed_line track
      \<and> (\<exists>s d. check_track tid track st = set_track_state tid s (count_crossing tid d st)))"
proof (cases "length (centroids track) < 2")
  case True
  then show ?thesis by (simp add: check_track_def)
next
  case long: False
  show ?thesis
  proof (cases "map_of (track_states (counter st)) tid")
    case None
    then show ?thesis using long by (auto simp: check_track_def Let_def)
  next
    case (Some previous_side)
    show ?thesis
    proof (cases "crossed_line track")
      case True
      then show ?thesis using long Some by (auto simp: check_track_def Let_def)
    next
      case False
      then show ?thesis
        using long Some unfolding check_track_def Let_def
        by (simp split: if_splits) blast
    qed
  qed
qed

lemma marks_kept_imp_step: "marks_kept a b \<Longrightarrow> tracker_step a b"
proof -
  assume k: "marks_kept a b"
  have "\<exists>p. map_of (tracks a) t = Some p \<and> (crossed_line p \<longrightarrow> crossed_line p')"
    if b: "map_of (tracks b) t = Some p'" for t p'
  proof -
    from b have "t \<in> fst ` set (tracks b)" by (metis map_of_eq_None_iff option.distinct(1))
    then have "t \<in> fst ` set (tracks a)" using k by (metis marks_kept_def set_map)
    then obtain p where p: "map_of (tracks a) t = Some p"
      by (metis map_of_eq_None_iff not_Some_eq)
    with k b show ?thesis unfolding marks_kept_def by fastforce
  qed
  then show ?thesis using k by (auto simp: tracker_step_def marks_kept_def)
qed

lemma check_track_step:
  fixes st tid track
  defines "st' \<equiv> check_track tid track st"
  shows "marks_kept (tracker (counter st)) (tracker (counter st'))"
    and "wf_tracker (tracker (counter st)) \<Longrightarrow> wf_tracker (tracker (counter st'))"
    and "occupancy_inv (counter st) \<Longrightarrow> occupancy_inv (counter st')"
    and "crossings st' = crossings st
         \<or> (\<not> crossed_line track
            \<and> (\<exists>d occ. crossings st' = crossings st @ [(tid, d, occ)])
            \<and> (\<forall>p. map_of (tracks (tracker (counter st))) tid = Some p \<longrightarrow>
                 (\<exists>p'. map_of (tracks (tracker (counter st'))) tid = Some p' \<and> crossed_line p')))"
proof -
  consider (skip) "st' = st" | (state) s where "st' = set_track_state tid s st"
    | (cross) s d where "\<not> crossed_line track"
        "st' = set_track_state tid s (count_crossing tid d st)"
    using check_track_cases [of tid track st] unfolding st'_def by blast
  then have "marks_kept (tracker (counter st)) (tracker (counter st'))
     \<and> (wf_tracker (tracker (counter st)) \<longrightarrow> wf_tracker (tracker (counter st')))
     \<and> (occupancy_inv (counter st) \<longrightarrow> occupancy_inv (counter st'))
     \<and> (crossings st' = crossings st
         \<or> (\<not> crossed_line track
            \<and> (\<exists>d occ. crossings st' = crossings st @ [(tid, d, occ)])
            \<and> (\<forall>p. map_of (tracks (tracker (counter st))) tid = Some p \<longrightarrow>
                 (\<exists>p'. map_of (tracks (tracker (counter st'))) tid = Some p' \<and> crossed_line p'))))"
  proof cases
    case skip
    then show ?thesis by (simp add: marks_kept_refl)
  next
    case state
    then show ?thesis by (simp add: marks_kept_refl occupancy_inv_def)
  next
    case cross
    note f = count_crossing_facts [where tid = tid and d = d and st = st]
    from f(2) obtain occ where occ: "crossings (count_crossing tid d st) = crossings st @ [(tid, d, occ)]"
      by blast
    show ?thesis
      using cross f(1) f(3) occ
      by (simp add: marks_kept_mark wf_mark marked_after_mark occupancy_inv_def)
  qed
  then show "marks_kept (tracker (counter st)) (tracker (counter st'))"
    and "wf_tracker (tracker (counter st)) \<Longrightarrow> wf_tracker (tracker (counter st'))"
    and "occupancy_inv (counter st) \<Longrightarrow> occupancy_inv (counter st')"
    and "crossings st' = crossings st
         \<or> (\<not> crossed_line track
            \<and> (\<exists>d occ. crossings st' = crossings st @ [(tid, d, occ)])
            \<and> (\<forall>p. map_of (tracks (tracker (counter st))) tid = Some p \<longrightarrow>
                 (\<exists>p'. map_of (tracks (tracker (counter st'))) tid = Some p' \<and> crossed_line p')))"
    by blast+
qed

lemma check_loop:
  assumes "distinct (map fst L)"
    and "fst ` set L \<subseteq> fst ` set (tracks (tracker (counter st)))"
  shows "marks_kept (tracker (counter st))
           (tracker (counter (fold (\<lambda>(tid, track). check_track tid track) L st)))
       \<and> (wf_tracker (tracker (counter st)) \<longrightarrow>
            wf_tracker (tracker (counter (fold (\<lambda>(tid, track). check_track tid track) L st))))
       \<and> (occupancy_inv (counter st) \<longrightarrow>
            occupancy_inv (counter (fold (\<lambda>(tid, track). check_track tid track) L st)))
       \<and> (\<exists>evs. crossings (fold (\<lambda>(tid, track). check_track tid track) L st) = crossings st @ evs
            \<and> loop_events L (tracker (counter (fold (\<lambda>(tid, track). check_track tid track) L st))) evs)"
  using assms
proof (induction L arbitrary: st)
  case Nil
  then show ?case by (simp add: marks_kept_refl loop_events_def)
next
  case (Cons x L)
  obtain tid track where x: "x = (tid, track)" by (cases x)
  let ?f = "\<lambda>(tid, track). check_track tid track"
  let ?st1 = "check_track tid track st"
  let ?st' = "fold ?f L ?st1"
  note s1 = check_track_step [where st = st and tid = tid and track = track]
  have keys1: "map fst (tracks (tracker (counter ?st1))) = map fst (tracks (tracker (counter st)))"
    using s1(1) by (simp add: marks_kept_def)
  have d: "distinct (map fst L)" and fresh: "tid \<notin> fst ` set L"
    using Cons.prems(1) by (auto simp: x)
  have sub: "fst ` set L \<subseteq> fst ` set (tracks (tracker (counter ?st1)))"
    using Cons.prems(2) keys1 by (metis (no_types, lifting) image_set insert_subset list.simps(15) image_insert)
  from Cons.IH [OF d sub]
  obtain evs where k: "marks_kept (tracker (counter ?st1)) (tracker (counter ?st'))"
    and w: "wf_tracker (tracker (counter ?st1)) \<longrightarrow> wf_tracker (tracker (counter ?st'))"
    and o: "occupancy_inv (counter ?st1) \<longrightarrow> occupancy_inv (counter ?st')"
    and evs: "crossings ?st' = crossings ?st1 @ evs"
    and le: "loop_events L (tracker (counter ?st')) evs"
    by blast
  have in_keys: "tid \<in> fst ` set (tracks (tracker (counter st)))"
    using Cons.prems(2) by (simp add: x)
  then obtain p where p: "map_of (tracks (tracker (counter st))) tid = Some p"
    by (metis map_of_eq_None_iff not_Some_eq)
  have evs_keys: "fst ` set evs \<subseteq> fst ` set L"
    using le unfolding loop_events_def by force
  consider (quiet) "crossings ?st1 = crossings st"
    | (cross) d occ p1 where "\<not> crossed_line track" "crossings ?st1 = crossings st @ [(tid, d, occ)]"
        "map_of (tracks (tracker (counter ?st1))) tid = Some p1" "crossed_line p1"
    using s1(4) p by blast
  then have "\<exists>evs0. crossings ?st' = crossings st @ evs0
       \<and> loop_events ((tid, track) # L) (tracker (counter ?st')) evs0"
  proof cases
    case quiet
    have "loop_events ((tid, track) # L) (tracker (counter ?st')) evs"
      using le unfolding loop_events_def by auto
    then show ?thesis using quiet evs by auto
  next
    case cross
    from k cross(3,4) obtain p' where
      p': "map_of (tracks (tracker (counter ?st'))) tid = Some p'" "crossed_line p'"
      unfolding marks_kept_def by blast
    have "loop_events ((tid, track) # L) (tracker (counter ?st')) ((tid, d, occ) # evs)"
      using le cross(1) p' fresh evs_keys unfolding loop_events_def by auto
    then show ?thesis using cross(2) evs by auto
  qed
  moreover have "marks_kept (tracker (counter st)) (tracker (counter ?st'))"
    using s1(1) k by (rule marks_kept_trans)
  ultimately show ?case
    using w o s1(2) s1(3) by (simp add: x)
qed

lemma may_cross_mono: "tracker_step a b \<Longrightarrow> may_cross b tid \<Longrightarrow> may_cross a tid"
  unfolding tracker_step_def may_cross_def by (metis order_trans)

lemma EntryExitCounter_update_ok:
  assumes wf: "wf_tracker (tracker c)"
  shows "\<exists>c' counts evs. EntryExitCounter_update now detections c = Inr (c', counts, evs)
     \<and> wf_tracker (tracker c')
     \<and> (occupancy_inv c \<longrightarrow> occupancy_inv c')
     \<and> distinct (map fst evs)
     \<and> (\<forall>tid. may_cross (tracker c') tid \<longrightarrow> may_cross (tracker c) tid)
     \<and> (\<forall>e \<in> set evs. may_cross (tracker c) (fst e) \<and> \<not> may_cross (tracker c') (fst e))"
proof -
  from CentroidTracker_update_ok [OF wf, of now detections]
  obtain ct where ct: "CentroidTracker_update now detections (tracker c) = Inr ct"
    and wfct: "wf_tracker ct" and step: "tracker_step (tracker c) ct" by blast
  let ?start = "\<lparr>counter = c\<lparr>tracker := ct\<rparr>, new_entries = 0, new_exits = 0, crossings = []\<rparr>"
  let ?st = "fold (\<lambda>(tid, track). check_track tid track) (tracks ct) ?start"
  let ?T = "tracker (counter ?st)"
  let ?c' = "(counter ?st)\<lparr>track_states :=
      filter (\<lambda>(tid, s). tid \<in> set (map fst (tracks ?T))) (track_states (counter ?st))\<rparr>"
  have d: "distinct (map fst (tracks ct))" using wfct by (simp add: wf_tracker_def)
  have "tracker (counter ?start) = ct" by simp
  with check_loop [of "tracks ct" ?start, OF d]
  obtain evs where k: "marks_kept ct ?T" and w: "wf_tracker ?T"
    and o: "occupancy_inv (counter ?start) \<longrightarrow> occupancy_inv (counter ?st)"
    and evs: "crossings ?st = evs" and le: "loop_events (tracks ct) ?T evs"
    using wfct by auto
  define c' where "c' = ?c'"
  have T: "tracker c' = ?T" by (simp add: c'_def)
  have res: "EntryExitCounter_update now detections c = Inr (c', (new_entries ?st, new_exits ?st), evs)"
    using ct evs by (simp add: EntryExitCounter_update_def Let_def c'_def)
  have step': "tracker_step (tracker c) ?T"
    using step marks_kept_imp_step [OF k] by (rule tracker_step_trans)
  have inv: "occupancy_inv c \<longrightarrow> occupancy_inv c'"
    using o by (simp add: occupancy_inv_def c'_def)
  have ev: "may_cross (tracker c) (fst e) \<and> \<not> may_cross ?T (fst e)" if "e \<in> set evs" for e
  proof -
    from le that obtain track p' where t: "(fst e, track) \<in> set (tracks ct)" "\<not> crossed_line track"
      and p': "map_of (tracks ?T) (fst e) = Some p'" "crossed_line p'"
      unfolding loop_events_def by blast
    from t d have "map_of (tracks ct) (fst e) = Some track" by simp
    then have "may_cross ct (fst e)" using t(2) by (auto simp: may_cross_def)
    then have 1: "may_cross (tracker c) (fst e)" using step by (rule may_cross_mono [rotated])
    from p'(1) have "(fst e, p') \<in> set (tracks ?T)" by (rule map_of_SomeD)
    then have "fst e < next_id ?T" using w unfolding wf_tracker_def by blast
    then have "\<not> may_cross ?T (fst e)" using p' by (simp add: may_cross_def)
    with 1 show ?thesis by simp
  qed
  have dist: "distinct (map fst evs)" using le by (simp add: loop_events_def)
  have w': "wf_tracker (tracker c')" using w by (simp only: T)
  have ev': "\<forall>e \<in> set evs. may_cross (tracker c) (fst e) \<and> \<not> may_cross (tracker c') (fst e)"
    using ev by (simp only: T) blast
  have mono: "\<forall>tid. may_cross (tracker c') tid \<longrightarrow> may_cross (tracker c) tid"
    using may_cross_mono [OF step'] by (simp only: T) blast
  show ?thesis
    using res w' inv dist mono ev' by blast
qed

lemma crossings_of_append [simp]:
  "crossings_of tid (xs @ ys) = crossings_of tid xs @ crossings_of tid ys"
  by (simp add: crossings_of_def)

lemma crossings_of_distinct:
  "distinct (map fst evs) \<Longrightarrow> length (crossings_of tid evs) \<le> 1"
  unfolding crossings_of_def
  by (induction evs) (auto simp: filter_empty_conv intro: rev_image_eqI)

lemma crossings_of_absent:
  "tid \<notin> fst ` set evs \<Longrightarrow> crossings_of tid evs = []"
  unfolding crossings_of_def by (auto simp: filter_empty_conv)

lemma wf_init: "wf_tracker (CentroidTracker_init a b)"
  by (simp add: wf_tracker_def CentroidTracker_init_def)

lemma run_total:
  assumes "wf_tracker (tracker c)"
  shows "\<exists>c' evs. run c calls = Inr (c', evs) \<and> wf_tracker (tracker c')
           \<and> (occupancy_inv c \<longrightarrow> occupancy_inv c')"
  using assms
proof (induction c calls rule: run.induct)
  case (1 c)
  then show ?case by simp
next
  case (2 c calls)
  have "wf_tracker (tracker (reset c))" "occupancy_inv (reset c)"
    by (simp_all add: reset_def wf_init occupancy_inv_def)
  with "2.IH" show ?case by auto
next
  case (3 c now detections calls)
  from EntryExitCounter_update_ok [OF "3.prems", of now detections]
  obtain c1 counts evs1 where u: "EntryExitCounter_update now detections c = Inr (c1, counts, evs1)"
    and w: "wf_tracker (tracker c1)" and o: "occupancy_inv c \<longrightarrow> occupancy_inv c1"
    by blast
  from "3.IH" [OF u refl refl w]
  obtain c' evs where "run c1 calls = Inr (c', evs)" "wf_tracker (tracker c')"
    "occupancy_inv c1 \<longrightarrow> occupancy_inv c'" by blast
  then show ?case using u o by auto
qed

lemma run_updates_once:
  assumes "wf_tracker (tracker c)"
  shows "\<exists>c' evs. run c (updates frames) = Inr (c', evs)
           \<and> (\<forall>tid. length (crossings_of tid evs) \<le> (if may_cross (tracker c) tid then 1 else 0))"
  using assms
proof (induction frames arbitrary: c)
  case Nil
  then show ?case by (simp add: updates_def crossings_of_def)
next
  case (Cons f frames)
  obtain now detections where f: "f = (now, detections)" by (cases f)
  from EntryExitCounter_update_ok [OF Cons.prems, of now detections]
  obtain c1 counts evs1 where u: "EntryExitCounter_update now detections c = Inr (c1, counts, evs1)"
    and w: "wf_tracker (tracker c1)" and d: "distinct (map fst evs1)"
    and mono: "\<And>tid. may_cross (tracker c1) tid \<Longrightarrow> may_cross (tracker c) tid"
    and ev: "\<And>e. e \<in> set evs1 \<Longrightarrow> may_cross (tracker c) (fst e) \<and> \<not> may_cross (tracker c1) (fst e)"
    by blast
  from Cons.IH [OF w]
  obtain c' evs where r: "run c1 (updates frames) = Inr (c', evs)"
    and b: "\<And>tid. length (crossings_of tid evs) \<le> (if may_cross (tracker c1) tid then 1 else 0)"
    by blast
  have "length (crossings_of tid (evs1 @ evs)) \<le> (if may_cross (tracker c) tid then 1 else 0)" for tid
  proof (cases "tid \<in> fst ` set evs1")
    case True
    then have "may_cross (tracker c) tid" "\<not> may_cross (tracker c1) tid" using ev by auto
    moreover have "length (crossings_of tid evs1) \<le> 1" using d by (rule crossings_of_distinct)
    ultimately show ?thesis using b [of tid] by simp
  next
    case False
    then have "crossings_of tid evs1 = []" by (rule crossings_of_absent)
    then show ?thesis using b [of tid] mono [of tid] by (simp split: if_splits)
  qed
  then show ?case using u r by (simp add: updates_def f)
qed

lemmas run_eval = EntryExitCounter_update_def EntryExitCounter_init_def
      CentroidTracker_update_def CentroidTracker_init_def register_def deregister_def
      check_track_def set_track_state_def count_crossing_def update_position_def
      deque_append_def disappeared_def greedy_match_single
      get_occupancy_def Let_def enumerate_eq_zip


text \<open>
  The matrix with the single distance 50 is one that \<open>update\<close> passes to the
  matcher: a person seen at (0, 0) and then at (30, 40) keeps the identity (there
  is one track afterwards, with both positions).
\<close>

lemma equal_distance_reached_by_update:
  "run (EntryExitCounter_init 300 480 ''down'') [Update 0 [(0, 0)], Update (1/10) [(30, 40)]] =
   Inr (\<lparr>counting_line_y = 300, frame_height = 480, entry_direction = ''down'',
         tracker = \<lparr>next_id = 1,
           tracks = [(0, \<lparr>tp_track_id = 0, centroids = [(0, 0), (30, 40)],
                         last_seen = 1/10, crossed_line = False, direction = None\<rparr>)],
           max_disappeared = 30, max_distance = 50\<rparr>,
         total_entries = 0, total_exits = 0, current_occupancy = 0,
         track_states = [(0, Above)]\<rparr>, [])"
  by (simp add: run_eval)

text \<open>
  C10.  From construction on, through any sequence of \<open>update\<close> and \<open>reset\<close>
  calls (none of which raises), the unclamped field \<open>current_occupancy\<close> equals
  \<open>total_entries - total_exits\<close>: after construction (no call), after every
  update and after every reset (the sequence may end anywhere).
\<close>

theorem occupancy_is_entries_minus_exits:
  "\<exists>c evs. run (EntryExitCounter_init line height dir) calls = Inr (c, evs)
     \<and> current_occupancy c = total_entries c - total_exits c"
proof -
  have "wf_tracker (tracker (EntryExitCounter_init line height dir))"
    "occupancy_inv (EntryExitCounter_init line height dir)"
    by (simp_all add: EntryExitCounter_init_def wf_init occupancy_inv_def)
  with run_total [of "EntryExitCounter_init line height dir" calls]
  show ?thesis by (auto simp: occupancy_inv_def)
qed

theorem occupancy_is_entries_minus_exits_witness:
  "run (EntryExitCounter_init 300 480 ''down'')
     [Update 0 [(320, 250)], Update (1/10) [(320, 270)], Update (2/10) [(320, 310)], Reset,
      Update (3/10) [(320, 310)], Update (4/10) [(320, 320)], Update (5/10) [(320, 290)]] =
   Inr (\<lparr>counting_line_y = 300, frame_height = 480, entry_direction = ''down'',
         tracker = \<lparr>next_id = 1,
           tracks = [(0, \<lparr>tp_track_id = 0,
                         centroids = [(320, 310), (320, 320), (320, 290)],
                         last_seen = 5/10, crossed_line = True,
                         direction = Some Exit\<rparr>)],
           max_disappeared = 30, max_distance = 50\<rparr>,
         total_entries = 0, total_exits = 1, current_occupancy = - 1,
         track_states = [(0, Above)]\<rparr>,
        [(0, Entry, 1), (0, Exit, - 1)])
   \<and> (- 1 :: int) = 0 - 1"
  using occupancy_is_entries_minus_exits [of 300 480 "''down''"
     "[Update 0 [(320, 250)], Update (1/10) [(320, 270)], Update (2/10) [(320, 310)], Reset,
      Update (3/10) [(320, 310)], Update (4/10) [(320, 320)], Update (5/10) [(320, 290)]]"]
  by (simp add: run_eval reset_def)

text \<open>
  C1 (amended).  The claim that the running counter is clamped at zero when it is
  decremented fails: \<open>self.current_occupancy -= 1\<close> has no clamp, and an
  identity first seen below the line that moves above it, with entry direction
  \<open>down\<close>, takes the field to \<open>- 1\<close> (the counterexample follows the
  witness below).  What holds: after every sequence of \<open>update\<close> and \<open>reset\<close> calls,
  \<open>get_occupancy()\<close> and the \<open>current_occupancy\<close> entry of \<open>get_stats()\<close> are
  not negative, because the read clamps: they are the maximum of 0 and
  \<open>total_entries - total_exits\<close>.
\<close>

theorem get_occupancy_never_negative:
  "\<exists>c evs. run (EntryExitCounter_init line height dir) calls = Inr (c, evs)
     \<and> 0 \<le> get_occupancy c
     \<and> get_stats c ''current_occupancy'' = Some (get_occupancy c)
     \<and> get_occupancy c = max 0 (total_entries c - total_exits c)"
proof -
  have "wf_tracker (tracker (EntryExitCounter_init line height dir))"
    "occupancy_inv (EntryExitCounter_init line height dir)"
    by (simp_all add: EntryExitCounter_init_def wf_init occupancy_inv_def)
  with run_total [of "EntryExitCounter_init line height dir" calls]
  show ?thesis by (auto simp: occupancy_inv_def get_occupancy_def get_stats_def)
qed

theorem get_occupancy_never_negative_witness:
  "\<exists>c evs. run (EntryExitCounter_init 300 480 ''down'')
       [Update 0 [(320, 310)], Update (1/10) [(320, 320)], Update (2/10) [(320, 290)]] = Inr (c, evs)
     \<and> current_occupancy c = - 1 \<and> get_occupancy c = 0
     \<and> get_stats c ''current_occupancy'' = Some 0"
  using get_occupancy_never_negative [of 300 480 "''down''"
     "[Update 0 [(320, 310)], Update (1/10) [(320, 320)], Update (2/10) [(320, 290)]]"]
  by (simp add: run_eval get_stats_def)

theorem occupancy_counter_negative_counterexample:
  "run (EntryExitCounter_init 300 480 ''down'')
     [Update 0 [(320, 310)], Update (1/10) [(320, 320)], Update (2/10) [(320, 290)]] =
   Inr (\<lparr>counting_line_y = 300, frame_height = 480, entry_direction = ''down'',
         tracker = \<lparr>next_id = 1,
           tracks = [(0, \<lparr>tp_track_id = 0,
                         centroids = [(320, 310), (320, 320), (320, 290)],
                         last_seen = 2/10, crossed_line = True,
                         direction = Some Exit\<rparr>)],
           max_disappeared = 30, max_distance = 50\<rparr>,
         total_entries = 0, total_exits = 1, current_occupancy = - 1,
         track_states = [(0, Above)]\<rparr>,
        [(0, Exit, - 1)])"
  by (simp add: run_eval)


text \<open>
  C2.  Whatever happened before (any sequence of calls, resets included), in
  every following sequence of \<open>update\<close> calls each identity has at most one
  crossing event, however its centroid moves across the line: the first crossing
  sets \<open>crossed_line\<close>, which no update clears, and the tracker never hands out
  an identity again between resets.  An identity is one \<open>track_id\<close> for as long
  as it is tracked, so this covers every stretch in which it stays tracked.
\<close>

theorem one_crossing_per_visit:
  "\<exists>c0 evs0. run (EntryExitCounter_init line height dir) history = Inr (c0, evs0)
     \<and> (\<exists>c evs. run c0 (updates frames) = Inr (c, evs)
          \<and> (\<forall>tid. length (crossings_of tid evs) \<le> 1))"
proof -
  have "wf_tracker (tracker (EntryExitCounter_init line height dir))"
    by (simp add: EntryExitCounter_init_def wf_init)
  from run_total [OF this, of history]
  obtain c0 evs0 where h: "run (EntryExitCounter_init line height dir) history = Inr (c0, evs0)"
    and w: "wf_tracker (tracker c0)" by blast
  from run_updates_once [OF w, of frames]
  obtain c evs where r: "run c0 (updates frames) = Inr (c, evs)"
    and b: "\<And>tid. length (crossings_of tid evs) \<le> (if may_cross (tracker c0) tid then 1 else 0)"
    by blast
  have "length (crossings_of tid evs) \<le> 1" for tid
    using b [of tid] by (simp split: if_splits)
  then show ?thesis using h r by blast
qed

theorem one_crossing_per_visit_witness:
  "run (EntryExitCounter_init 300 480 ''down'') [] = Inr (EntryExitCounter_init 300 480 ''down'', [])
   \<and> (\<exists>c. run (EntryExitCounter_init 300 480 ''down'')
         (updates [(0, [(320, 250)]), (1/10, [(320, 270)]), (2/10, [(320, 310)]),
                   (3/10, [(320, 290)]), (4/10, [(320, 310)]), (5/10, [(320, 290)])])
        = Inr (c, [(0, Entry, 1)])
      \<and> length (crossings_of 0 [(0, Entry, 1)]) \<le> 1)"
  using one_crossing_per_visit [of 300 480 "''down''" "[]"
         "[(0, [(320, 250)]), (1/10, [(320, 270)]), (2/10, [(320, 310)]),
           (3/10, [(320, 290)]), (4/10, [(320, 310)]), (5/10, [(320, 290)])]"]
  by (simp add: run_eval updates_def crossings_of_def)

end
